theory Spec2Isabelle
  imports Main "HOL-Library.Word"
begin

section \<open>JavaScript strings\<close>

text \<open>
  A JavaScript string is a sequence of UTF-16 code units. The regular expressions of
  the repository carry no \<open>u\<close> flag, so they work on code units as well. Every
  character the source names (ASCII, the Greek letters, the operator symbols) lies in the
  Basic Multilingual Plane and is one code unit.
\<close>

type_synonym cu = "16 word"
type_synonym jsstring = "cu list"

definition js :: "string \<Rightarrow> jsstring" where
  "js = map of_char"

definition DOLLAR :: cu where "DOLLAR = 0x24"
definition BACKSLASH :: cu where "BACKSLASH = 0x5C"
definition NEWLINE :: cu where "NEWLINE = 0x0A"
definition SPACE :: cu where "SPACE = 0x20"
definition NBSP :: cu where "NBSP = 0xA0"

subsection \<open>Character classes\<close>

definition digit :: "cu \<Rightarrow> bool" where
  \<comment> \<open>\<open>\d\<close>\<close>
  "digit c \<longleftrightarrow> 0x30 \<le> c \<and> c \<le> 0x39"

definition alnum :: "cu \<Rightarrow> bool" where
  \<comment> \<open>\<open>[a-zA-Z0-9]\<close>\<close>
  "alnum c \<longleftrightarrow> (0x61 \<le> c \<and> c \<le> 0x7A) \<or> (0x41 \<le> c \<and> c \<le> 0x5A) \<or> (0x30 \<le> c \<and> c \<le> 0x39)"

definition line_terminator :: "cu \<Rightarrow> bool" where
  \<comment> \<open>LF, CR, LS, PS\<close>
  "line_terminator c \<longleftrightarrow> c = 0x0A \<or> c = 0x0D \<or> c = 0x2028 \<or> c = 0x2029"

definition white :: "cu \<Rightarrow> bool" where
  \<comment> \<open>\<open>\s\<close>, which is also what \<open>trim\<close> strips: WhiteSpace and LineTerminator of ECMAScript\<close>
  "white c \<longleftrightarrow> c = 0x09 \<or> c = 0x0B \<or> c = 0x0C \<or> c = 0x20 \<or> c = 0xA0 \<or> c = 0x1680
     \<or> (0x2000 \<le> c \<and> c \<le> 0x200A) \<or> c = 0x202F \<or> c = 0x205F \<or> c = 0x3000 \<or> c = 0xFEFF
     \<or> line_terminator c"

definition dot :: "cu \<Rightarrow> bool" where
  \<comment> \<open>\<open>.\<close> without the \<open>s\<close> flag\<close>
  "dot c \<longleftrightarrow> \<not> line_terminator c"

definition eq_class :: "cu \<Rightarrow> bool" where
  \<comment> \<open>\<open>[a-zA-Z0-9+\-*/^().\s]\<close>\<close>
  "eq_class c \<longleftrightarrow> alnum c \<or> c = 0x2B \<or> c = 0x2D \<or> c = 0x2A \<or> c = 0x2F \<or> c = 0x5E
     \<or> c = 0x28 \<or> c = 0x29 \<or> c = 0x2E \<or> white c"

definition op_class :: "cu \<Rightarrow> bool" where
  \<comment> \<open>\<open>[+\-*/^=]\<close>\<close>
  "op_class c \<longleftrightarrow> c = 0x2B \<or> c = 0x2D \<or> c = 0x2A \<or> c = 0x2F \<or> c = 0x5E \<or> c = 0x3D"

section \<open>Regular expressions: a backtracking matcher\<close>

text \<open>
  The patterns of the repository are sequences of literal characters, character classes,
  greedy \<open>+\<close> over a class, lazy \<open>*?\<close> over a class, and capture groups that are not
  nested. A pattern is a list of tokens, the parentheses among them.
\<close>

datatype tok =
    Lit cu
  | Cls "cu \<Rightarrow> bool"
  | Plus "cu \<Rightarrow> bool"
  | LazyStar "cu \<Rightarrow> bool"
  | Open
  | Close

text \<open>
  The state of a match attempt: the text matched so far, the offsets (in it) at which
  the groups now open began, and the captures of the groups closed so far.
\<close>

record mstate =
  matched :: jsstring
  opens :: "nat list"
  caps :: "jsstring list"

type_synonym cont = "mstate \<Rightarrow> jsstring \<Rightarrow> (mstate \<times> jsstring) option"

definition init :: mstate where
  "init = \<lparr>matched = [], opens = [], caps = []\<rparr>"

definition eat :: "cu \<Rightarrow> mstate \<Rightarrow> mstate" where
  "eat x st = st\<lparr>matched := matched st @ [x]\<rparr>"

definition open_group :: "mstate \<Rightarrow> mstate" where
  "open_group st = st\<lparr>opens := length (matched st) # opens st\<rparr>"

definition close_group :: "mstate \<Rightarrow> mstate" where
  "close_group st = (case opens st of
       [] \<Rightarrow> st
     | i # is \<Rightarrow> st\<lparr>opens := is, caps := caps st @ [drop i (matched st)]\<rparr>)"

text \<open>Greedy repetition takes one more character first and falls back to the continuation.\<close>

fun star_greedy :: "(cu \<Rightarrow> bool) \<Rightarrow> cont \<Rightarrow> cont" where
  "star_greedy p k st [] = k st []"
| "star_greedy p k st (x # xs) =
     (if p x then
        (case star_greedy p k (eat x st) xs of
           Some r \<Rightarrow> Some r
         | None \<Rightarrow> k st (x # xs))
      else k st (x # xs))"

text \<open>Lazy repetition tries the continuation first and takes one more character when it fails.\<close>

fun star_lazy :: "(cu \<Rightarrow> bool) \<Rightarrow> cont \<Rightarrow> cont" where
  "star_lazy p k st [] = k st []"
| "star_lazy p k st (x # xs) =
     (case k st (x # xs) of
        Some r \<Rightarrow> Some r
      | None \<Rightarrow> if p x then star_lazy p k (eat x st) xs else None)"

definition one :: "(cu \<Rightarrow> bool) \<Rightarrow> cont \<Rightarrow> cont" where
  "one p k st s = (case s of [] \<Rightarrow> None | x # xs \<Rightarrow> if p x then k (eat x st) xs else None)"

primrec rmatch :: "tok list \<Rightarrow> cont" where
  "rmatch [] = (\<lambda>st s. Some (st, s))"
| "rmatch (t # ts) =
     (case t of
        Lit c \<Rightarrow> one (\<lambda>x. x = c) (rmatch ts)
      | Cls p \<Rightarrow> one p (rmatch ts)
      | Plus p \<Rightarrow> one p (star_greedy p (rmatch ts))
      | LazyStar p \<Rightarrow> star_lazy p (rmatch ts)
      | Open \<Rightarrow> (\<lambda>st. rmatch ts (open_group st))
      | Close \<Rightarrow> (\<lambda>st. rmatch ts (close_group st)))"

text \<open>
  \<open>RegExpBuiltinExec\<close> without the sticky flag: the match is tried at the current
  position and then at each later one. The result is the text skipped, the state of the
  match, and the text after the match.
\<close>

fun exec :: "tok list \<Rightarrow> jsstring \<Rightarrow> (jsstring \<times> mstate \<times> jsstring) option" where
  "exec re [] =
     (case rmatch re init [] of
        Some (st, r) \<Rightarrow> Some ([], st, r)
      | None \<Rightarrow> None)"
| "exec re (x # xs) =
     (case rmatch re init (x # xs) of
        Some (st, r) \<Rightarrow> Some ([], st, r)
      | None \<Rightarrow>
         (case exec re xs of
            Some (pre, st, r) \<Rightarrow> Some (x # pre, st, r)
          | None \<Rightarrow> None))"

definition test :: "tok list \<Rightarrow> jsstring \<Rightarrow> bool" where
  \<comment> \<open>\<open>RegExp.prototype.test\<close> of a pattern without the global flag\<close>
  "test re s \<longleftrightarrow> exec re s \<noteq> None"

lemma one_extends:
  assumes "\<And>st s st' r. k st s = Some (st', r) \<Longrightarrow> \<exists>m. matched st' = matched st @ m \<and> s = m @ r"
    and "one p k st s = Some (st', r)"
  shows "\<exists>m. matched st' = matched st @ m \<and> s = m @ r"
proof (cases s)
  case Nil
  with assms(2) show ?thesis by (simp add: one_def)
next
  case (Cons x xs)
  with assms(2) have "k (eat x st) xs = Some (st', r)"
    by (simp add: one_def split: if_splits)
  from assms(1) [OF this] obtain m where "matched st' = matched st @ [x] @ m" "xs = m @ r"
    by (auto simp: eat_def)
  with Cons show ?thesis by auto
qed

lemma star_greedy_extends:
  assumes "\<And>st s st' r. k st s = Some (st', r) \<Longrightarrow> \<exists>m. matched st' = matched st @ m \<and> s = m @ r"
  shows "star_greedy p k st s = Some (st', r) \<Longrightarrow> \<exists>m. matched st' = matched st @ m \<and> s = m @ r"
proof (induction s arbitrary: st)
  case Nil
  then have "k st [] = Some (st', r)" by simp
  then show ?case by (rule assms)
next
  case (Cons x xs)
  show ?case
  proof (cases "p x \<and> star_greedy p k (eat x st) xs \<noteq> None")
    case True
    with Cons.prems have "star_greedy p k (eat x st) xs = Some (st', r)"
      by auto
    from Cons.IH [OF this] obtain m where "matched st' = matched st @ [x] @ m" "xs = m @ r"
      by (auto simp: eat_def)
    then show ?thesis by auto
  next
    case False
    with Cons.prems have "k st (x # xs) = Some (st', r)"
      by (auto split: if_splits option.splits)
    then show ?thesis by (rule assms)
  qed
qed

lemma star_lazy_extends:
  assumes "\<And>st s st' r. k st s = Some (st', r) \<Longrightarrow> \<exists>m. matched st' = matched st @ m \<and> s = m @ r"
  shows "star_lazy p k st s = Some (st', r) \<Longrightarrow> \<exists>m. matched st' = matched st @ m \<and> s = m @ r"
proof (induction s arbitrary: st)
  case Nil
  then have "k st [] = Some (st', r)" by simp
  then show ?case by (rule assms)
next
  case (Cons x xs)
  show ?case
  proof (cases "k st (x # xs)")
    case (Some a)
    with Cons.prems have "k st (x # xs) = Some (st', r)" by simp
    then show ?thesis by (rule assms)
  next
    case None
    with Cons.prems have "star_lazy p k (eat x st) xs = Some (st', r)"
      by (simp split: if_splits)
    from Cons.IH [OF this] obtain m where "matched st' = matched st @ [x] @ m" "xs = m @ r"
      by (auto simp: eat_def)
    then show ?thesis by auto
  qed
qed

lemma matched_open_group: "matched (open_group st) = matched st"
  by (simp add: open_group_def)

lemma matched_close_group: "matched (close_group st) = matched st"
  by (simp add: close_group_def split: list.splits)

lemma rmatch_extends:
  "rmatch re st s = Some (st', r) \<Longrightarrow> \<exists>m. matched st' = matched st @ m \<and> s = m @ r"
proof (induction re arbitrary: st s st' r)
  case Nil
  then show ?case by simp
next
  case (Cons t ts)
  note IH = Cons.IH
  show ?case
  proof (cases t)
    case (Lit c)
    with Cons.prems have "one (\<lambda>x. x = c) (rmatch ts) st s = Some (st', r)" by simp
    then show ?thesis by (rule one_extends [rotated]) (rule IH)
  next
    case (Cls p)
    with Cons.prems have "one p (rmatch ts) st s = Some (st', r)" by simp
    then show ?thesis by (rule one_extends [rotated]) (rule IH)
  next
    case (Plus p)
    with Cons.prems have "one p (star_greedy p (rmatch ts)) st s = Some (st', r)" by simp
    then show ?thesis
      by (rule one_extends [rotated]) (erule star_greedy_extends [rotated], rule IH)
  next
    case (LazyStar p)
    with Cons.prems have "star_lazy p (rmatch ts) st s = Some (st', r)" by simp
    then show ?thesis by (rule star_lazy_extends [rotated]) (rule IH)
  next
    case Open
    with Cons.prems have "rmatch ts (open_group st) s = Some (st', r)" by simp
    from IH [OF this] show ?thesis by (simp add: matched_open_group)
  next
    case Close
    with Cons.prems have "rmatch ts (close_group st) s = Some (st', r)" by simp
    from IH [OF this] show ?thesis by (simp add: matched_close_group)
  qed
qed

lemma rmatch_init: "rmatch re init s = Some (st, r) \<Longrightarrow> s = matched st @ r"
  using rmatch_extends [of re init s st r] by (simp add: init_def)

lemma exec_decomp: "exec re s = Some (pre, st, r) \<Longrightarrow> s = pre @ matched st @ r"
proof (induction s arbitrary: pre)
  case Nil
  then show ?case by (auto split: option.splits dest: rmatch_init)
next
  case (Cons x xs)
  show ?case
  proof (cases "rmatch re init (x # xs)")
    case None
    with Cons.prems obtain pre' where "exec re xs = Some (pre', st, r)" "pre = x # pre'"
      by (auto split: option.splits)
    with Cons.IH show ?thesis by simp
  next
    case (Some a)
    with Cons.prems have "rmatch re init (x # xs) = Some (st, r)" "pre = []"
      by (auto split: prod.splits)
    then show ?thesis by (simp add: rmatch_init)
  qed
qed

section \<open>String.prototype.replace with a global pattern\<close>

definition digit_value :: "cu \<Rightarrow> nat" where
  "digit_value c = unat c - 48"

text \<open>
  \<open>GetSubstitution\<close> of ECMAScript, without named groups: the matched text, the text
  before and after the match, the captures, and the replacement template.
\<close>

fun GetSubstitution :: "jsstring \<Rightarrow> jsstring \<Rightarrow> jsstring \<Rightarrow> jsstring list \<Rightarrow> jsstring \<Rightarrow> jsstring" where
  "GetSubstitution m b a cs [] = []"
| "GetSubstitution m b a cs (c # t) =
     (if c \<noteq> DOLLAR then c # GetSubstitution m b a cs t
      else (case t of
          [] \<Rightarrow> [DOLLAR]
        | d # t' \<Rightarrow>
            if d = DOLLAR then DOLLAR # GetSubstitution m b a cs t'
            else if d = 0x60 then b @ GetSubstitution m b a cs t'
            else if d = 0x26 then m @ GetSubstitution m b a cs t'
            else if d = 0x27 then a @ GetSubstitution m b a cs t'
            else if digit d then
              (case t' of
                 [] \<Rightarrow>
                   if 1 \<le> digit_value d \<and> digit_value d \<le> length cs
                   then cs ! (digit_value d - 1)
                   else [DOLLAR, d]
               | e # t'' \<Rightarrow>
                   if digit e \<and> 10 * digit_value d + digit_value e \<le> length cs then
                     (if 1 \<le> 10 * digit_value d + digit_value e
                      then cs ! (10 * digit_value d + digit_value e - 1) @ GetSubstitution m b a cs t''
                      else DOLLAR # d # e # GetSubstitution m b a cs t'')
                   else if 1 \<le> digit_value d \<and> digit_value d \<le> length cs
                   then cs ! (digit_value d - 1) @ GetSubstitution m b a cs (e # t'')
                   else DOLLAR # d # GetSubstitution m b a cs (e # t''))
            else DOLLAR # GetSubstitution m b a cs (d # t')))"

datatype replacement =
    Template jsstring
  | Callback "jsstring \<Rightarrow> jsstring"

definition substitute :: "replacement \<Rightarrow> mstate \<Rightarrow> jsstring \<Rightarrow> jsstring \<Rightarrow> jsstring" where
  \<comment> \<open>the callbacks of the repository read their first argument only, the matched text\<close>
  "substitute rep st lhs rhs =
     (case rep of
        Template t \<Rightarrow> GetSubstitution (matched st) lhs rhs (caps st) t
      | Callback f \<Rightarrow> f (matched st))"

text \<open>
  The loop of \<open>RegExp.prototype[Symbol.replace]\<close>: each match is searched from the end of
  the one before (one code unit further after an empty match), the text between the
  matches is kept, and \<open>lhs\<close> is the text of the subject before the match.
\<close>

function replace_loop :: "tok list \<Rightarrow> replacement \<Rightarrow> jsstring \<Rightarrow> jsstring \<Rightarrow> jsstring" where
  "replace_loop re rep lhs s =
     (case exec re s of
        None \<Rightarrow> s
      | Some (pre, st, rhs) \<Rightarrow>
          pre @ substitute rep st (lhs @ pre) rhs @
          (if matched st = [] then
             (case rhs of
                [] \<Rightarrow> []
              | c # cs \<Rightarrow> c # replace_loop re rep (lhs @ pre @ [c]) cs)
           else replace_loop re rep (lhs @ pre @ matched st) rhs))"
  by pat_completeness auto
termination
  by (relation "measure (\<lambda>(re, rep, lhs, s). length s)") (auto dest!: exec_decomp)

declare replace_loop.simps [simp del]

definition replace :: "tok list \<Rightarrow> replacement \<Rightarrow> jsstring \<Rightarrow> jsstring" where
  "replace re rep s = replace_loop re rep [] s"

definition trim :: "jsstring \<Rightarrow> jsstring" where
  "trim s = rev (dropWhile white (rev (dropWhile white s)))"

text \<open>A template without any \<open>$\<close> reference stands for itself.\<close>

fun literal_template :: "jsstring \<Rightarrow> bool" where
  "literal_template (c # d # t) \<longleftrightarrow>
     (c = DOLLAR \<longrightarrow> d \<noteq> DOLLAR \<and> d \<noteq> 0x60 \<and> d \<noteq> 0x26 \<and> d \<noteq> 0x27 \<and> \<not> digit d)
     \<and> literal_template (d # t)"
| "literal_template _ \<longleftrightarrow> True"

section \<open>The math pattern annotator\<close>

text \<open>
  \<open>detectMathPatterns\<close> of \<open>src/app/api/process-pdf/route.ts\<close>: a chain of
  \<open>processed = processed.replace(pattern, replacement)\<close>. Each group of statements
  of the source is one function here, named after its comment.
\<close>

definition ch :: "char \<Rightarrow> cu" where
  "ch = of_char"

definition re_fraction :: "tok list" where
  \<comment> \<open>\<open>/(\d+)\/(\d+)/g\<close>\<close>
  "re_fraction = [Open, Plus digit, Close, Lit (ch CHR ''/''), Open, Plus digit, Close]"

definition fractionRule :: "jsstring \<Rightarrow> jsstring" where
  \<comment> \<open>replacement \<open>'\\frac{$1}{$2}'\<close>\<close>
  "fractionRule processed =
     replace re_fraction (Template (BACKSLASH # js ''frac{$1}{$2}'')) processed"

definition re_exponent :: "tok list" where
  \<comment> \<open>\<open>/([a-zA-Z0-9]+)\^(\d+)/g\<close>\<close>
  "re_exponent = [Open, Plus alnum, Close, Lit (ch CHR ''^''), Open, Plus digit, Close]"

definition re_braced :: "tok list" where
  \<comment> \<open>\<open>/([a-zA-Z0-9]+)\^{([^}]+)}/g\<close>\<close>
  "re_braced = [Open, Plus alnum, Close, Lit (ch CHR ''^''), Lit (ch CHR ''{''),
     Open, Plus (\<lambda>c. c \<noteq> ch CHR ''}''), Close, Lit (ch CHR ''}'')]"

definition exponentRule :: "jsstring \<Rightarrow> jsstring" where
  \<comment> \<open>both replacements are \<open>'$1^{$2}'\<close>\<close>
  "exponentRule processed =
     (let processed = replace re_exponent (Template (js ''$1^{$2}'')) processed;
          processed = replace re_braced (Template (js ''$1^{$2}'')) processed
      in processed)"

text \<open>
  For the claims about the exponent rule: a text that begins with \<open>^\<close> and a digit, and
  a text in which a letter or digit is followed by \<open>^\<close> and a digit.
\<close>

fun caret_digit :: "jsstring \<Rightarrow> bool" where
  "caret_digit (c # d # t) \<longleftrightarrow> c = ch CHR ''^'' \<and> digit d"
| "caret_digit t \<longleftrightarrow> False"

fun has_exponent :: "jsstring \<Rightarrow> bool" where
  "has_exponent [] \<longleftrightarrow> False"
| "has_exponent (x # t) \<longleftrightarrow> (alnum x \<and> caret_digit t) \<or> has_exponent t"

definition re_sqrt_paren :: "tok list" where
  \<comment> \<open>\<open>/\<surd>\(([^)]+)\)/g\<close>, the radical sign being U+221A\<close>
  "re_sqrt_paren = [Lit 0x221A, Lit (ch CHR ''(''), Open, Plus (\<lambda>c. c \<noteq> ch CHR '')''), Close,
     Lit (ch CHR '')'')]"

definition re_sqrt_digits :: "tok list" where
  \<comment> \<open>\<open>/\<surd>(\d+)/g\<close>\<close>
  "re_sqrt_digits = [Lit 0x221A, Open, Plus digit, Close]"

definition rootRule :: "jsstring \<Rightarrow> jsstring" where
  \<comment> \<open>both replacements are \<open>'\\sqrt{$1}'\<close>\<close>
  "rootRule processed =
     (let processed = replace re_sqrt_paren (Template (BACKSLASH # js ''sqrt{$1}'')) processed;
          processed = replace re_sqrt_digits (Template (BACKSLASH # js ''sqrt{$1}'')) processed
      in processed)"

definition greekLetters :: "(cu \<times> jsstring) list" where
  \<comment> \<open>the entries of the object literal, in the order of the source\<close>
  "greekLetters = [
     (0x3B1, BACKSLASH # js ''alpha''), (0x3B2, BACKSLASH # js ''beta''), (0x3B3, BACKSLASH # js ''gamma''), (0x3B4, BACKSLASH # js ''delta''),
     (0x3B5, BACKSLASH # js ''epsilon''), (0x3B6, BACKSLASH # js ''zeta''), (0x3B7, BACKSLASH # js ''eta''), (0x3B8, BACKSLASH # js ''theta''),
     (0x3B9, BACKSLASH # js ''iota''), (0x3BA, BACKSLASH # js ''kappa''), (0x3BB, BACKSLASH # js ''lambda''), (0x3BC, BACKSLASH # js ''mu''),
     (0x3BD, BACKSLASH # js ''nu''), (0x3BE, BACKSLASH # js ''xi''), (0x3C0, BACKSLASH # js ''pi''), (0x3C1, BACKSLASH # js ''rho''),
     (0x3C3, BACKSLASH # js ''sigma''), (0x3C4, BACKSLASH # js ''tau''), (0x3C5, BACKSLASH # js ''upsilon''), (0x3C6, BACKSLASH # js ''phi''),
     (0x3C7, BACKSLASH # js ''chi''), (0x3C8, BACKSLASH # js ''psi''), (0x3C9, BACKSLASH # js ''omega''), (0x393, BACKSLASH # js ''Gamma''),
     (0x394, BACKSLASH # js ''Delta''), (0x398, BACKSLASH # js ''Theta''), (0x39B, BACKSLASH # js ''Lambda''), (0x39E, BACKSLASH # js ''Xi''),
     (0x3A0, BACKSLASH # js ''Pi''), (0x3A3, BACKSLASH # js ''Sigma''), (0x3A6, BACKSLASH # js ''Phi''), (0x3A8, BACKSLASH # js ''Psi''),
     (0x3A9, BACKSLASH # js ''Omega'')]"

definition greekRule :: "jsstring \<Rightarrow> jsstring" where
  \<comment> \<open>\<open>Object.entries(greekLetters).forEach\<close>: \<open>new RegExp(char, 'g')\<close>, replacement \<open>`$${latex}$`\<close>\<close>
  "greekRule processed =
     foldl (\<lambda>processed (char, latex).
              replace [Lit char] (Template (js ''$'' @ latex @ js ''$'')) processed)
           processed greekLetters"

definition operatorRule :: "jsstring \<Rightarrow> jsstring" where
  \<comment> \<open>eleven replacements of one symbol each, such as \<open>'$\\leq$'\<close>\<close>
  "operatorRule processed =
     (let
          processed = replace [Lit 0x2264] (Template (js ''$'' @ BACKSLASH # js ''leq$'')) processed;
          processed = replace [Lit 0x2265] (Template (js ''$'' @ BACKSLASH # js ''geq$'')) processed;
          processed = replace [Lit 0x2260] (Template (js ''$'' @ BACKSLASH # js ''neq$'')) processed;
          processed = replace [Lit 0x00B1] (Template (js ''$'' @ BACKSLASH # js ''pm$'')) processed;
          processed = replace [Lit 0x221E] (Template (js ''$'' @ BACKSLASH # js ''infty$'')) processed;
          processed = replace [Lit 0x2211] (Template (js ''$'' @ BACKSLASH # js ''sum$'')) processed;
          processed = replace [Lit 0x222B] (Template (js ''$'' @ BACKSLASH # js ''int$'')) processed;
          processed = replace [Lit 0x2202] (Template (js ''$'' @ BACKSLASH # js ''partial$'')) processed;
          processed = replace [Lit 0x2207] (Template (js ''$'' @ BACKSLASH # js ''nabla$'')) processed;
          processed = replace [Lit 0x00D7] (Template (js ''$'' @ BACKSLASH # js ''times$'')) processed;
          processed = replace [Lit 0x00F7] (Template (js ''$'' @ BACKSLASH # js ''div$'')) processed;
          processed = processed
      in processed)"

definition equationPattern :: "tok list" where
  \<comment> \<open>\<open>/([a-zA-Z0-9+\-*/^().\s]+=[a-zA-Z0-9+\-*/^().\s]+)/g\<close>\<close>
  "equationPattern = [Open, Plus eq_class, Lit (ch CHR ''=''), Plus eq_class, Close]"

definition includes_cu :: "jsstring \<Rightarrow> cu \<Rightarrow> bool" where
  \<comment> \<open>\<open>String.prototype.includes\<close> with a string of one code unit\<close>
  "includes_cu s c \<longleftrightarrow> c \<in> set s"

definition equationCallback :: "jsstring \<Rightarrow> jsstring" where
  "equationCallback match =
     (if includes_cu match DOLLAR then match
      else if test [Cls op_class] match \<and> test [Cls digit] match
      then js ''$$'' @ trim match @ js ''$$''
      else match)"

definition equationRule :: "jsstring \<Rightarrow> jsstring" where
  "equationRule processed = replace equationPattern (Callback equationCallback) processed"

text \<open>The callback of the equation rule without its first branch.\<close>

definition unguardedCallback :: "jsstring \<Rightarrow> jsstring" where
  "unguardedCallback match =
     (if test [Cls op_class] match \<and> test [Cls digit] match
      then js ''$$'' @ trim match @ js ''$$''
      else match)"

definition detectMathPatterns :: "jsstring \<Rightarrow> jsstring" where
  "detectMathPatterns text =
     (let processed = text;
          processed = fractionRule processed;
          processed = exponentRule processed;
          processed = rootRule processed;
          processed = greekRule processed;
          processed = operatorRule processed;
          processed = equationRule processed
      in processed)"

subsection \<open>What the claims about the annotator speak of\<close>

text \<open>
  The eleven replacements of the operator rule as a table, the replacement of one character
  by a table, the characters of a LaTeX command name, and a table whose keys are not ASCII
  and whose names are command names.
\<close>

definition operatorSymbols :: "(cu \<times> jsstring) list" where
  "operatorSymbols = [
     (0x2264, BACKSLASH # js ''leq''), (0x2265, BACKSLASH # js ''geq''),
     (0x2260, BACKSLASH # js ''neq''), (0x00B1, BACKSLASH # js ''pm''),
     (0x221E, BACKSLASH # js ''infty''), (0x2211, BACKSLASH # js ''sum''),
     (0x222B, BACKSLASH # js ''int''), (0x2202, BACKSLASH # js ''partial''),
     (0x2207, BACKSLASH # js ''nabla''), (0x00D7, BACKSLASH # js ''times''),
     (0x00F7, BACKSLASH # js ''div'')]"

definition wrapWith :: "(cu \<times> jsstring) list \<Rightarrow> cu \<Rightarrow> jsstring" where
  "wrapWith tbl c = (case map_of tbl c of Some latex \<Rightarrow> js ''$'' @ latex @ js ''$'' | None \<Rightarrow> [c])"

definition name_char :: "cu \<Rightarrow> bool" where
  "name_char c \<longleftrightarrow> c = BACKSLASH \<or> (0x41 \<le> c \<and> c \<le> 0x5A) \<or> (0x61 \<le> c \<and> c \<le> 0x7A)"

definition symbol_table :: "(cu \<times> jsstring) list \<Rightarrow> bool" where
  "symbol_table tbl \<longleftrightarrow>
     (\<forall>(c, l)\<in>set tbl. 0x80 \<le> c \<and> l \<noteq> [] \<and> (\<forall>x\<in>set l. name_char x))"

text \<open>
  A text made of characters other than \<open>$\<close> and of command names between two \<open>$\<close>:
  the form of the text after the two symbol rules.
\<close>

inductive annotated :: "jsstring \<Rightarrow> bool" where
  Nil: "annotated []"
| Plain: "c \<noteq> DOLLAR \<Longrightarrow> annotated t \<Longrightarrow> annotated (c # t)"
| Wrap: "name \<noteq> [] \<Longrightarrow> \<forall>c\<in>set name. name_char c \<Longrightarrow> annotated t \<Longrightarrow>
         annotated (DOLLAR # name @ DOLLAR # t)"

text \<open>
  Balanced delimiters: the text is a sequence of characters other than \<open>$\<close>, of inline
  regions \<open>$...$\<close> and of block regions \<open>$$...$$\<close>, the text inside a region being not
  empty and without \<open>$\<close>.
\<close>

lemma dropWhile_shorter: "dropWhile P s = e # r \<Longrightarrow> length r < Suc (length s)"
  using length_dropWhile_le [of P s] by simp

function balanced :: "jsstring \<Rightarrow> bool" where
  "balanced [] \<longleftrightarrow> True"
| "balanced (c # s) \<longleftrightarrow>
     (if c \<noteq> DOLLAR then balanced s
      else case s of
             [] \<Rightarrow> False
           | d # s' \<Rightarrow>
               if d = DOLLAR then
                 takeWhile (\<lambda>x. x \<noteq> DOLLAR) s' \<noteq> [] \<and>
                 (case dropWhile (\<lambda>x. x \<noteq> DOLLAR) s' of
                    e # f # r \<Rightarrow> f = DOLLAR \<and> balanced r
                  | _ \<Rightarrow> False)
               else
                 (case dropWhile (\<lambda>x. x \<noteq> DOLLAR) s' of
                    e # r \<Rightarrow> balanced r
                  | [] \<Rightarrow> False))"
  by pat_completeness auto
termination
  by (relation "measure length") (auto dest!: dropWhile_shorter)

section \<open>The page stream driver\<close>

text \<open>
  \<open>POST\<close> of \<open>src/app/api/process-pdf/route.ts\<close>. The PDF decoder is outside the
  repository: a request is modelled by what its awaited calls give, each either resolved
  with a value or rejected with the value thrown.
\<close>

datatype thrown =
    ErrorObject jsstring  \<comment> \<open>an \<open>Error\<close>, with its message\<close>
  | OtherValue

datatype 'a outcome =
    Resolved 'a
  | Rejected thrown

text \<open>
  An entry of \<open>textContent.items\<close>: a text item with its \<open>str\<close> and its baseline
  \<open>transform[5]\<close>, or marked content, which has no \<open>str\<close>. Baselines are numbers of
  JavaScript; the model takes the integer ones, on which the subtraction and the comparison
  with 5 of the source are exact.
\<close>

datatype text_item =
    TextItem jsstring int
  | MarkedContent

record pdf =
  numPages :: nat
  getPage :: "nat \<Rightarrow> text_item list outcome"  \<comment> \<open>\<open>getPage(n)\<close>, then \<open>getTextContent()\<close>\<close>

type_synonym pdf_file = "pdf outcome"  \<comment> \<open>\<open>arrayBuffer()\<close>, then \<open>getDocument\<close>\<close>

type_synonym request = "pdf_file option outcome"  \<comment> \<open>\<open>formData()\<close>, then \<open>get('pdf')\<close>\<close>

datatype event =
    ProgressEvent jsstring
  | PageEvent nat jsstring
  | CompleteEvent jsstring
  | ErrorEvent jsstring

record controller =
  queue :: "event list"
  closed :: bool

definition enqueue :: "event \<Rightarrow> controller \<Rightarrow> controller" where
  "enqueue e ctl = ctl\<lparr>queue := queue ctl @ [e]\<rparr>"

definition close :: "controller \<Rightarrow> controller" where
  "close ctl = ctl\<lparr>closed := True\<rparr>"

function decimal :: "nat \<Rightarrow> jsstring" where
  \<comment> \<open>a page number or page count inside a template literal\<close>
  "decimal n = (if n < 10 then [of_nat (48 + n)] else decimal (n div 10) @ [of_nat (48 + n mod 10)])"
  by pat_completeness auto
termination
  by (relation "measure id") auto

declare decimal.simps [simp del]

subsection \<open>The line reconstructor\<close>

fun itemStep :: "jsstring \<times> int \<Rightarrow> text_item \<Rightarrow> jsstring \<times> int" where
  \<comment> \<open>the body of \<open>textItems.forEach\<close>, on \<open>(pageText, lastY)\<close>\<close>
  "itemStep (pageText, lastY) (TextItem str y) =
     (let pageText = (if lastY \<noteq> 0 \<and> \<bar>y - lastY\<bar> > 5 then pageText @ [NEWLINE] else pageText);
          pageText = pageText @ str @ [SPACE]
      in (pageText, y))"
| "itemStep (pageText, lastY) MarkedContent = (pageText, lastY)"

definition rawPageText :: "text_item list \<Rightarrow> jsstring" where
  "rawPageText textItems = fst (foldl itemStep ([], 0) textItems)"

definition reconstructPage :: "text_item list \<Rightarrow> jsstring" where
  \<comment> \<open>then \<open>pageText.replace(/ +/g, ' ').trim()\<close>\<close>
  "reconstructPage textItems =
     trim (replace [Plus (\<lambda>c. c = SPACE)] (Template [SPACE]) (rawPageText textItems))"

subsection \<open>The stream\<close>

function pageLoop :: "pdf \<Rightarrow> nat \<Rightarrow> controller \<Rightarrow> thrown option \<times> controller" where
  \<comment> \<open>the \<open>for\<close> loop from \<open>pageNum\<close> on; \<open>Some\<close> is a value thrown out of it\<close>
  "pageLoop pdf pageNum ctl =
     (if pageNum \<le> numPages pdf then
        (let ctl = enqueue (ProgressEvent (js ''Processing page '' @ decimal pageNum @ js '' of ''
                     @ decimal (numPages pdf) @ js ''...'')) ctl
         in case getPage pdf pageNum of
              Rejected e \<Rightarrow> (Some e, ctl)
            | Resolved textItems \<Rightarrow>
                (let pageText = reconstructPage textItems;
                     processedText = detectMathPatterns pageText;
                     ctl = enqueue (PageEvent pageNum processedText) ctl
                 in pageLoop pdf (pageNum + 1) ctl))
      else (None, ctl))"
  by pat_completeness auto
termination
  by (relation "measure (\<lambda>(pdf, pageNum, ctl). numPages pdf + 1 - pageNum)") auto

declare pageLoop.simps [simp del]

definition tryBlock :: "request \<Rightarrow> controller \<Rightarrow> thrown option \<times> controller" where
  "tryBlock request ctl =
     (case request of
        Rejected e \<Rightarrow> (Some e, ctl)
      | Resolved None \<Rightarrow> (None, close (enqueue (ErrorEvent (js ''No file provided'')) ctl))
      | Resolved (Some pdf_file) \<Rightarrow>
          (let ctl = enqueue (ProgressEvent (js ''Loading PDF...'')) ctl
           in case pdf_file of
                Rejected e \<Rightarrow> (Some e, ctl)
              | Resolved pdf \<Rightarrow>
                  (let ctl = enqueue (ProgressEvent (js ''Processing '' @ decimal (numPages pdf)
                               @ js '' pages...'')) ctl
                   in case pageLoop pdf 1 ctl of
                        (Some e, ctl) \<Rightarrow> (Some e, ctl)
                      | (None, ctl) \<Rightarrow>
                          (None, close (enqueue (CompleteEvent (js ''Processing complete!'')) ctl)))))"

definition catchBlock :: "thrown \<Rightarrow> controller \<Rightarrow> controller" where
  "catchBlock error ctl =
     close (enqueue (ErrorEvent (case error of
                                   ErrorObject message \<Rightarrow> message
                                 | OtherValue \<Rightarrow> js ''Failed to process PDF'')) ctl)"

definition POST :: "request \<Rightarrow> controller" where
  \<comment> \<open>the \<open>start\<close> of the stream that \<open>POST\<close> returns, run on a fresh controller\<close>
  "POST request =
     (case tryBlock request \<lparr>queue = [], closed = False\<rparr> of
        (None, ctl) \<Rightarrow> ctl
      | (Some error, ctl) \<Rightarrow> catchBlock error ctl)"

subsection \<open>What the claims about the driver speak of\<close>

text \<open>
  The numbers of the page events of a stream, its terminal events, the message the
  \<open>catch\<close> block sends, and a document of one page whose page cannot be read.
\<close>

fun pageNumbers :: "event list \<Rightarrow> nat list" where
  "pageNumbers [] = []"
| "pageNumbers (PageEvent n c # es) = n # pageNumbers es"
| "pageNumbers (e # es) = pageNumbers es"

fun is_terminal :: "event \<Rightarrow> bool" where
  "is_terminal (CompleteEvent m) = True"
| "is_terminal (ErrorEvent m) = True"
| "is_terminal e = False"

fun is_resolved :: "'a outcome \<Rightarrow> bool" where
  "is_resolved (Resolved x) = True"
| "is_resolved (Rejected e) = False"

definition thrown_message :: "thrown \<Rightarrow> jsstring" where
  "thrown_message e = (case e of ErrorObject m \<Rightarrow> m | OtherValue \<Rightarrow> js ''Failed to process PDF'')"

definition brokenPdf :: pdf where
  "brokenPdf = \<lparr>numPages = 1, getPage = (\<lambda>n. Rejected OtherValue)\<rparr>"





definition lineBreaks :: "jsstring \<Rightarrow> nat" where
  "lineBreaks s = length (filter (\<lambda>c. c = NEWLINE) s)"


section \<open>The markup segmenter\<close>

text \<open>
  The effect of \<open>MathRenderer\<close> on one line, \<open>src/unnamed/part_001\<close>: the children
  appended to \<open>lineDiv\<close>. A math span is kept as the display mode and the \<open>match[1]\<close> it
  was rendered from; KaTeX itself is outside the repository.
\<close>

datatype child =
    TextSpan jsstring
  | MathSpan bool jsstring
  | TextNode jsstring

definition displayMathRegex :: "tok list" where
  \<comment> \<open>\<open>/\$\$(.*?)\$\$/g\<close>\<close>
  "displayMathRegex = [Lit DOLLAR, Lit DOLLAR, Open, LazyStar dot, Close, Lit DOLLAR, Lit DOLLAR]"

definition inlineMathRegex :: "tok list" where
  \<comment> \<open>\<open>/\$(.*?)\$/g\<close>\<close>
  "inlineMathRegex = [Lit DOLLAR, Open, LazyStar dot, Close, Lit DOLLAR]"

definition group1 :: "mstate \<Rightarrow> jsstring" where
  \<comment> \<open>\<open>match[1]\<close> of a pattern with one group\<close>
  "group1 st = (case caps st of [] \<Rightarrow> [] | c # cs \<Rightarrow> c)"

text \<open>
  \<open>while ((match = regex.exec(line)) !== null)\<close> from \<open>lastIndex\<close> on, the argument
  being the line from there. The result is the children appended, the rest of the line from
  the last \<open>lastIndex\<close>, and whether a match was found. After an empty match \<open>exec\<close>
  would leave \<open>lastIndex\<close> where it is and the loop would not end: that is \<open>None\<close>.
\<close>

function execLoop :: "tok list \<Rightarrow> bool \<Rightarrow> jsstring \<Rightarrow> (child list \<times> jsstring \<times> bool) option" where
  "execLoop regex displayMode s =
     (case exec regex s of
        None \<Rightarrow> Some ([], s, False)
      | Some (pre, st, rhs) \<Rightarrow>
          if matched st = [] then None
          else (case execLoop regex displayMode rhs of
                  None \<Rightarrow> None
                | Some (children, rest, found) \<Rightarrow>
                    Some ((if pre \<noteq> [] then [TextSpan pre] else [])
                            @ MathSpan displayMode (group1 st) # children, rest, True)))"
  by pat_completeness auto
termination
  by (relation "measure (\<lambda>(regex, displayMode, s). length s)") (auto dest!: exec_decomp)

declare execLoop.simps [simp del]

definition renderLine :: "jsstring \<Rightarrow> child list option" where
  "renderLine line =
     (case execLoop displayMathRegex True line of
        None \<Rightarrow> None
      | Some (children, rest, hasDisplayMath) \<Rightarrow>
          (case (if \<not> hasDisplayMath then execLoop inlineMathRegex False line
                 else Some (children, rest, hasDisplayMath)) of
             None \<Rightarrow> None
           | Some (children, rest, found) \<Rightarrow>
               (let children = children @ (if rest \<noteq> [] then [TextSpan rest] else [])
                in if children = []
                   then Some [TextNode (if line \<noteq> [] then line else [NBSP])]
                   else Some children)))"

definition raw :: "child \<Rightarrow> jsstring" where
  \<comment> \<open>the literal text of a segment, a math segment with its delimiters\<close>
  "raw c = (case c of
       TextSpan t \<Rightarrow> t
     | TextNode t \<Rightarrow> t
     | MathSpan displayMode content \<Rightarrow>
         if displayMode then js ''$$'' @ content @ js ''$$'' else js ''$'' @ content @ js ''$'')"

section \<open>Properties of the matcher and of replace\<close>

lemma eat_matched_append:
  "(eat x st)\<lparr>matched := matched (eat x st) @ pre\<rparr> = st\<lparr>matched := matched st @ x # pre\<rparr>"
  by (simp add: eat_def)

lemma star_greedy_split:
  "star_greedy p k st s = Some res \<Longrightarrow>
   \<exists>pre post. s = pre @ post \<and> (\<forall>c\<in>set pre. p c) \<and> k (st\<lparr>matched := matched st @ pre\<rparr>) post = Some res"
proof (induction s arbitrary: st)
  case Nil
  then show ?case by simp
next
  case (Cons x xs)
  show ?case
  proof (cases "p x \<and> star_greedy p k (eat x st) xs \<noteq> None")
    case True
    with Cons.prems have "star_greedy p k (eat x st) xs = Some res" by auto
    from Cons.IH [OF this] obtain pre post where
      "xs = pre @ post" "\<forall>c\<in>set pre. p c"
      "k (st\<lparr>matched := matched st @ x # pre\<rparr>) post = Some res"
      by (auto simp: eat_matched_append)
    with True have "x # xs = (x # pre) @ post \<and> (\<forall>c\<in>set (x # pre). p c)
       \<and> k (st\<lparr>matched := matched st @ (x # pre)\<rparr>) post = Some res" by simp
    then show ?thesis by blast
  next
    case False
    with Cons.prems have "k st (x # xs) = Some res"
      by (auto split: if_splits option.splits)
    then have "x # xs = [] @ (x # xs) \<and> (\<forall>c\<in>set []. p c)
       \<and> k (st\<lparr>matched := matched st @ []\<rparr>) (x # xs) = Some res" by simp
    then show ?thesis by blast
  qed
qed

lemma star_lazy_split:
  "star_lazy p k st s = Some res \<Longrightarrow>
   \<exists>pre post. s = pre @ post \<and> (\<forall>c\<in>set pre. p c) \<and> k (st\<lparr>matched := matched st @ pre\<rparr>) post = Some res"
proof (induction s arbitrary: st)
  case Nil
  then show ?case by simp
next
  case (Cons x xs)
  show ?case
  proof (cases "k st (x # xs)")
    case (Some a)
    with Cons.prems have "k st (x # xs) = Some res" by simp
    then have "x # xs = [] @ (x # xs) \<and> (\<forall>c\<in>set []. p c)
       \<and> k (st\<lparr>matched := matched st @ []\<rparr>) (x # xs) = Some res" by simp
    then show ?thesis by blast
  next
    case None
    with Cons.prems have px: "p x" and "star_lazy p k (eat x st) xs = Some res"
      by (auto split: if_splits)
    from Cons.IH [OF this(2)] obtain pre post where
      "xs = pre @ post" "\<forall>c\<in>set pre. p c"
      "k (st\<lparr>matched := matched st @ x # pre\<rparr>) post = Some res"
      by (auto simp: eat_matched_append)
    with px have "x # xs = (x # pre) @ post \<and> (\<forall>c\<in>set (x # pre). p c)
       \<and> k (st\<lparr>matched := matched st @ (x # pre)\<rparr>) post = Some res" by simp
    then show ?thesis by blast
  qed
qed

lemma star_greedy_max:
  assumes "\<And>st' x xs. p x \<Longrightarrow> k st' (x # xs) = None"
  shows "star_greedy p k st s = k (st\<lparr>matched := matched st @ takeWhile p s\<rparr>) (dropWhile p s)"
proof (induction s arbitrary: st)
  case Nil
  then show ?case by simp
next
  case (Cons x xs)
  show ?case
  proof (cases "p x")
    case True
    then have "k st (x # xs) = None" by (rule assms)
    with True Cons.IH [of "eat x st"] show ?thesis
      by (simp add: eat_matched_append split: option.splits)
  next
    case False
    then show ?thesis by simp
  qed
qed

lemma star_greedy_total:
  assumes "\<And>st' s'. k st' s' \<noteq> None"
  shows "star_greedy p k st s = k (st\<lparr>matched := matched st @ takeWhile p s\<rparr>) (dropWhile p s)"
proof (induction s arbitrary: st)
  case Nil
  then show ?case by simp
next
  case (Cons x xs)
  show ?case
  proof (cases "p x")
    case True
    from assms obtain r where "k (st\<lparr>matched := matched st @ x # takeWhile p xs\<rparr>) (dropWhile p xs) = Some r"
      by fastforce
    with True Cons.IH [of "eat x st"] show ?thesis
      by (simp add: eat_matched_append)
  next
    case False
    then show ?thesis by simp
  qed
qed

lemma exec_None_iff: "exec re s = None \<longleftrightarrow> (\<forall>i\<le>length s. rmatch re init (drop i s) = None)"
proof (induction s)
  case Nil
  then show ?case by (auto split: option.splits)
next
  case (Cons x xs)
  have "(\<forall>i\<le>length (x # xs). rmatch re init (drop i (x # xs)) = None)
     \<longleftrightarrow> rmatch re init (x # xs) = None \<and> (\<forall>i\<le>length xs. rmatch re init (drop i xs) = None)"
    (is "?L \<longleftrightarrow> ?R")
  proof
    assume L: ?L
    then have "rmatch re init (drop 0 (x # xs)) = None" by blast
    moreover have "\<forall>i\<le>length xs. rmatch re init (drop i xs) = None"
    proof (intro allI impI)
      fix i assume "i \<le> length xs"
      then have "rmatch re init (drop (Suc i) (x # xs)) = None" using L by auto
      then show "rmatch re init (drop i xs) = None" by simp
    qed
    ultimately show ?R by simp
  next
    assume R: ?R
    show ?L
    proof (intro allI impI)
      fix i assume "i \<le> length (x # xs)"
      then show "rmatch re init (drop i (x # xs)) = None"
        using R by (cases i) auto
    qed
  qed
  with Cons.IH show ?case by (auto split: option.splits)
qed

lemma exec_Some:
  "exec re s = Some (pre, st, r) \<Longrightarrow>
     s = pre @ matched st @ r \<and> rmatch re init (matched st @ r) = Some (st, r)
     \<and> (\<forall>i<length pre. rmatch re init (drop i s) = None)"
proof (induction s arbitrary: pre)
  case Nil
  then have m: "rmatch re init [] = Some (st, r)" and "pre = []"
    by (auto split: option.splits)
  with rmatch_init [OF m] show ?case by simp
next
  case (Cons x xs)
  show ?case
  proof (cases "rmatch re init (x # xs)")
    case None
    with Cons.prems obtain pre' where ex: "exec re xs = Some (pre', st, r)" and pre: "pre = x # pre'"
      by (auto split: option.splits)
    from Cons.IH [OF ex] have IH: "xs = pre' @ matched st @ r"
      "rmatch re init (matched st @ r) = Some (st, r)"
      "\<forall>i<length pre'. rmatch re init (drop i xs) = None" by auto
    have "\<forall>i<length pre. rmatch re init (drop i (x # xs)) = None"
    proof (intro allI impI)
      fix i assume "i < length pre"
      then show "rmatch re init (drop i (x # xs)) = None"
        using None IH(3) pre by (cases i) auto
    qed
    with IH pre show ?thesis by simp
  next
    case (Some a)
    with Cons.prems have m: "rmatch re init (x # xs) = Some (st, r)" and "pre = []"
      by (auto split: prod.splits)
    with rmatch_init [OF m] show ?thesis by simp
  qed
qed

lemma replace_loop_None: "exec re s = None \<Longrightarrow> replace_loop re rep lhs s = s"
  by (simp add: replace_loop.simps)

lemma replace_loop_Some:
  "exec re s = Some (pre, st, r) \<Longrightarrow> matched st \<noteq> [] \<Longrightarrow>
   replace_loop re rep lhs s
     = pre @ substitute rep st (lhs @ pre) r @ replace_loop re rep (lhs @ pre @ matched st) r"
  by (simp add: replace_loop.simps)

declare exec.simps [simp del]

lemma exec_hit: "rmatch re init s = Some (st, r) \<Longrightarrow> exec re s = Some ([], st, r)"
  by (cases s) (simp_all add: exec.simps)

lemma exec_skip:
  "rmatch re init (x # xs) = None \<Longrightarrow>
   exec re (x # xs) = (case exec re xs of Some (pre, st, r) \<Rightarrow> Some (x # pre, st, r) | None \<Rightarrow> None)"
  by (simp add: exec.simps)

lemma replace_loop_hit:
  "rmatch re init s = Some (st, r) \<Longrightarrow> matched st \<noteq> [] \<Longrightarrow>
   replace_loop re rep lhs s = substitute rep st lhs r @ replace_loop re rep (lhs @ matched st) r"
  using replace_loop_Some [of re s "[]" st r rep lhs] by (simp add: exec_hit)

lemma replace_loop_skip:
  assumes "rmatch re init (x # xs) = None"
  shows "replace_loop re rep lhs (x # xs) = x # replace_loop re rep (lhs @ [x]) xs"
proof (cases "exec re xs")
  case None
  with assms have "exec re (x # xs) = None" by (simp add: exec_skip)
  with None show ?thesis by (simp add: replace_loop_None)
next
  case (Some a)
  then obtain pre st r where a: "exec re xs = Some (pre, st, r)" by (cases a) auto
  with assms have b: "exec re (x # xs) = Some (x # pre, st, r)" by (simp add: exec_skip)
  have "replace_loop re rep lhs (x # xs) = x # pre @ substitute rep st (lhs @ x # pre) r @
      (if matched st = [] then
         (case r of [] \<Rightarrow> [] | c # cs \<Rightarrow> c # replace_loop re rep (lhs @ x # pre @ [c]) cs)
       else replace_loop re rep (lhs @ x # pre @ matched st) r)"
    using replace_loop.simps [of re rep lhs "x # xs"] by (auto simp: b split: list.splits)
  moreover have "replace_loop re rep (lhs @ [x]) xs = pre @ substitute rep st (lhs @ x # pre) r @
      (if matched st = [] then
         (case r of [] \<Rightarrow> [] | c # cs \<Rightarrow> c # replace_loop re rep (lhs @ x # pre @ [c]) cs)
       else replace_loop re rep (lhs @ x # pre @ matched st) r)"
    using replace_loop.simps [of re rep "lhs @ [x]" xs] by (auto simp: a split: list.splits)
  ultimately show ?thesis by simp
qed

lemma replace_loop_Nil: "rmatch re init [] = None \<Longrightarrow> replace_loop re rep lhs [] = []"
  by (simp add: replace_loop.simps exec.simps)

lemma GetSubstitution_literal: "literal_template t \<Longrightarrow> GetSubstitution m b a cs t = t"
proof (induction t rule: literal_template.induct)
  case (1 c d t)
  then have IH: "GetSubstitution m b a cs (d # t) = d # t" by simp
  from "1.prems" show ?case
    by (subst GetSubstitution.simps) (simp add: IH del: GetSubstitution.simps)
qed simp_all

lemma one_Nil [simp]: "one p k st [] = None"
  by (simp add: one_def)

lemma one_Cons [simp]: "one p k st (x # xs) = (if p x then k (eat x st) xs else None)"
  by (simp add: one_def)

lemma replace_Lit:
  assumes "literal_template t"
  shows "replace_loop [Lit c] (Template t) lhs s = concat (map (\<lambda>x. if x = c then t else [x]) s)"
proof (induction s arbitrary: lhs)
  case Nil
  show ?case by (simp add: replace_loop_Nil)
next
  case (Cons x xs)
  show ?case
  proof (cases "x = c")
    case True
    then have "rmatch [Lit c] init (x # xs) = Some (\<lparr>matched = [c], opens = [], caps = []\<rparr>, xs)"
      by (simp add: init_def eat_def)
    from replace_loop_hit [OF this] show ?thesis
      using True Cons.IH assms by (simp add: substitute_def GetSubstitution_literal)
  next
    case False
    then have "rmatch [Lit c] init (x # xs) = None" by simp
    from replace_loop_skip [OF this] show ?thesis
      using False Cons.IH by simp
  qed
qed

lemma concat_map_keep: "(\<And>x. x \<in> set ys \<Longrightarrow> g x = [x]) \<Longrightarrow> concat (map g ys) = ys"
  by (induction ys) simp_all

lemma foldl_substitutions:
  fixes tbl :: "(cu \<times> jsstring) list" and w :: "jsstring \<Rightarrow> jsstring"
  assumes "\<And>c l x. (c, l) \<in> set tbl \<Longrightarrow> x \<in> set (w l) \<Longrightarrow> x \<notin> fst ` set tbl"
  shows "foldl (\<lambda>s (c, l). concat (map (\<lambda>x. if x = c then w l else [x]) s)) s tbl
       = concat (map (\<lambda>x. case map_of tbl x of Some l \<Rightarrow> w l | None \<Rightarrow> [x]) s)"
  using assms
proof (induction tbl arbitrary: s)
  case Nil
  show ?case by simp
next
  case (Cons e tbl)
  obtain c l where e: "e = (c, l)" by (cases e)
  have fresh: "\<And>c' l' x. (c', l') \<in> set tbl \<Longrightarrow> x \<in> set (w l') \<Longrightarrow> x \<notin> fst ` set tbl"
  proof -
    fix c' l' x assume "(c', l') \<in> set tbl" "x \<in> set (w l')"
    then have "x \<notin> fst ` set (e # tbl)" using Cons.prems [of c' l' x] by simp
    then show "x \<notin> fst ` set tbl" by simp
  qed
  have wl: "\<And>x. x \<in> set (w l) \<Longrightarrow> map_of tbl x = None"
  proof -
    fix x assume "x \<in> set (w l)"
    then have "x \<notin> fst ` set (e # tbl)" using Cons.prems [of c l x] e by simp
    then show "map_of tbl x = None" by (simp add: map_of_eq_None_iff)
  qed
  have keep: "concat (map (\<lambda>x. case map_of tbl x of Some l \<Rightarrow> w l | None \<Rightarrow> [x]) (w l)) = w l"
    by (rule concat_map_keep) (simp add: wl)
  have "foldl (\<lambda>s (c, l). concat (map (\<lambda>x. if x = c then w l else [x]) s)) s (e # tbl)
      = concat (map (\<lambda>x. case map_of tbl x of Some l \<Rightarrow> w l | None \<Rightarrow> [x])
          (concat (map (\<lambda>x. if x = c then w l else [x]) s)))"
    using Cons.IH [OF fresh] by (simp add: e)
  also have "\<dots> = concat (map (\<lambda>x. case map_of (e # tbl) x of Some l \<Rightarrow> w l | None \<Rightarrow> [x]) s)"
    by (induction s) (simp_all add: e keep)
  finally show ?case .
qed

section \<open>Patterns token by token\<close>

lemma Lit_split:
  "rmatch (Lit c # ts) st s = Some res \<Longrightarrow>
   \<exists>post. s = c # post \<and> rmatch ts (st\<lparr>matched := matched st @ [c]\<rparr>) post = Some res"
  by (cases s) (auto simp: eat_def split: if_splits)

lemma Plus_split:
  assumes "rmatch (Plus p # ts) st s = Some res"
  shows "\<exists>g post. g \<noteq> [] \<and> (\<forall>c\<in>set g. p c) \<and> s = g @ post
      \<and> rmatch ts (st\<lparr>matched := matched st @ g\<rparr>) post = Some res"
proof (cases s)
  case Nil
  with assms show ?thesis by simp
next
  case (Cons x xs)
  with assms have px: "p x" and "star_greedy p (rmatch ts) (eat x st) xs = Some res"
    by (auto split: if_splits)
  from star_greedy_split [OF this(2)] obtain pre post where
    "xs = pre @ post" "\<forall>c\<in>set pre. p c"
    "rmatch ts (st\<lparr>matched := matched st @ x # pre\<rparr>) post = Some res"
    by (auto simp: eat_matched_append)
  with px Cons have "x # pre \<noteq> [] \<and> (\<forall>c\<in>set (x # pre). p c) \<and> s = (x # pre) @ post
      \<and> rmatch ts (st\<lparr>matched := matched st @ (x # pre)\<rparr>) post = Some res" by simp
  then show ?thesis by blast
qed

lemma Group_split:
  assumes "rmatch (Open # Plus p # Close # ts) st s = Some res"
  shows "\<exists>g post. g \<noteq> [] \<and> (\<forall>c\<in>set g. p c) \<and> s = g @ post
      \<and> rmatch ts (st\<lparr>matched := matched st @ g, caps := caps st @ [g]\<rparr>) post = Some res"
proof -
  from assms have "rmatch (Plus p # Close # ts) (open_group st) s = Some res" by simp
  from Plus_split [OF this] obtain g post where g: "g \<noteq> []" "\<forall>c\<in>set g. p c" "s = g @ post"
    and "rmatch (Close # ts) ((open_group st)\<lparr>matched := matched (open_group st) @ g\<rparr>) post = Some res"
    by blast
  then have "rmatch ts (close_group ((open_group st)\<lparr>matched := matched (open_group st) @ g\<rparr>)) post = Some res"
    by simp
  moreover have "close_group ((open_group st)\<lparr>matched := matched (open_group st) @ g\<rparr>)
      = st\<lparr>matched := matched st @ g, caps := caps st @ [g]\<rparr>"
    by (simp add: close_group_def open_group_def)
  ultimately show ?thesis using g by auto
qed

lemma Plus_max:
  assumes "\<And>st' x xs. p x \<Longrightarrow> rmatch ts st' (x # xs) = None"
  shows "rmatch (Plus p # ts) st s =
     (if takeWhile p s = [] then None
      else rmatch ts (st\<lparr>matched := matched st @ takeWhile p s\<rparr>) (dropWhile p s))"
proof (cases s)
  case Nil
  then show ?thesis by simp
next
  case (Cons x xs)
  show ?thesis
    using star_greedy_max [of p "rmatch ts", OF assms, of "eat x st" xs]
    by (simp add: Cons eat_matched_append)
qed

lemma Plus_end:
  assumes "\<And>st' s'. rmatch ts st' s' \<noteq> None"
  shows "rmatch (Plus p # ts) st s =
     (if takeWhile p s = [] then None
      else rmatch ts (st\<lparr>matched := matched st @ takeWhile p s\<rparr>) (dropWhile p s))"
proof (cases s)
  case Nil
  then show ?thesis by simp
next
  case (Cons x xs)
  show ?thesis
    using star_greedy_total [of "rmatch ts", OF assms, of p "eat x st" xs]
    by (simp add: Cons eat_matched_append)
qed

lemma equation_shape:
  assumes "rmatch equationPattern init s = Some (st, r)"
  shows "\<exists>a b. matched st = a @ ch CHR ''='' # b \<and> a \<noteq> [] \<and> b \<noteq> []
      \<and> (\<forall>c\<in>set a. eq_class c) \<and> (\<forall>c\<in>set b. eq_class c)"
proof -
  from assms have "rmatch (Plus eq_class # Lit (ch CHR ''='') # Plus eq_class # [Close]) (open_group init) s
      = Some (st, r)" by (simp add: equationPattern_def)
  from Plus_split [OF this] obtain a p1 where a: "a \<noteq> []" "\<forall>c\<in>set a. eq_class c"
    and 1: "rmatch (Lit (ch CHR ''='') # Plus eq_class # [Close])
          ((open_group init)\<lparr>matched := matched (open_group init) @ a\<rparr>) p1 = Some (st, r)"
    by blast
  from Lit_split [OF 1] obtain p2 where
    2: "rmatch (Plus eq_class # [Close])
          ((open_group init)\<lparr>matched := matched (open_group init) @ a @ [ch CHR ''='']\<rparr>) p2 = Some (st, r)"
    by auto
  from Plus_split [OF 2] obtain b p3 where b: "b \<noteq> []" "\<forall>c\<in>set b. eq_class c"
    and 3: "rmatch [Close]
          ((open_group init)\<lparr>matched := matched (open_group init) @ a @ [ch CHR ''=''] @ b\<rparr>) p3 = Some (st, r)"
    by auto
  from 3 have "matched st = a @ ch CHR ''='' # b"
    by (auto simp: open_group_def init_def close_group_def)
  with a b show ?thesis by blast
qed

lemma Group_max:
  assumes "\<And>st' x xs. p x \<Longrightarrow> rmatch ts st' (x # xs) = None"
  shows "rmatch (Open # Plus p # Close # ts) st s =
     (if takeWhile p s = [] then None
      else rmatch ts (st\<lparr>matched := matched st @ takeWhile p s, caps := caps st @ [takeWhile p s]\<rparr>)
             (dropWhile p s))"
proof -
  have 1: "\<And>st' x xs. p x \<Longrightarrow> rmatch (Close # ts) st' (x # xs) = None"
    by (simp add: assms)
  have "rmatch (Open # Plus p # Close # ts) st s = rmatch (Plus p # Close # ts) (open_group st) s"
    by simp
  also have "\<dots> = (if takeWhile p s = [] then None
      else rmatch (Close # ts) ((open_group st)\<lparr>matched := matched (open_group st) @ takeWhile p s\<rparr>)
             (dropWhile p s))"
    by (rule Plus_max [OF 1])
  also have "\<dots> = (if takeWhile p s = [] then None
      else rmatch ts (st\<lparr>matched := matched st @ takeWhile p s, caps := caps st @ [takeWhile p s]\<rparr>)
             (dropWhile p s))"
    by (simp add: open_group_def close_group_def)
  finally show ?thesis .
qed

lemma Group_end:
  "rmatch [Open, Plus p, Close] st s =
     (if takeWhile p s = [] then None
      else Some (st\<lparr>matched := matched st @ takeWhile p s, caps := caps st @ [takeWhile p s]\<rparr>,
                 dropWhile p s))"
proof -
  have 2: "\<And>st' s'. rmatch [Close] st' s' \<noteq> None" by simp
  have "rmatch [Open, Plus p, Close] st s = rmatch (Plus p # [Close]) (open_group st) s"
    by simp
  also have "\<dots> = (if takeWhile p s = [] then None
      else rmatch [Close] ((open_group st)\<lparr>matched := matched (open_group st) @ takeWhile p s\<rparr>)
             (dropWhile p s))"
    by (rule Plus_end [OF 2])
  also have "\<dots> = (if takeWhile p s = [] then None
      else Some (st\<lparr>matched := matched st @ takeWhile p s, caps := caps st @ [takeWhile p s]\<rparr>,
                 dropWhile p s))"
    by (simp add: open_group_def close_group_def)
  finally show ?thesis .
qed

section \<open>The symbol rules\<close>

lemma name_char_ascii: "name_char c \<Longrightarrow> c < 0x80 \<and> c \<noteq> DOLLAR \<and> c \<noteq> ch CHR ''=''"
  by (auto simp: name_char_def BACKSLASH_def DOLLAR_def ch_def word_le_nat_alt word_less_nat_alt)

lemma name_template_literal:
  assumes "l \<noteq> []" "\<forall>x\<in>set l. name_char x"
  shows "literal_template (js ''$'' @ l @ js ''$'')"
proof -
  have lit: "\<And>t. \<forall>x\<in>set t. name_char x \<Longrightarrow> literal_template (t @ [DOLLAR])"
  proof -
    fix t :: jsstring
    show "\<forall>x\<in>set t. name_char x \<Longrightarrow> literal_template (t @ [DOLLAR])"
    proof (induction t)
      case Nil
      show ?case by simp
    next
      case (Cons x t)
      then have "x \<noteq> DOLLAR" by (auto dest: name_char_ascii)
      with Cons show ?case by (cases t) simp_all
    qed
  qed
  from assms obtain x t where l: "l = x # t" by (cases l) auto
  with assms(2) have "name_char x" by simp
  then have "x \<noteq> DOLLAR \<and> x \<noteq> 0x60 \<and> x \<noteq> 0x26 \<and> x \<noteq> 0x27 \<and> \<not> digit x"
    by (auto simp: name_char_def BACKSLASH_def DOLLAR_def digit_def word_le_nat_alt)
  moreover have "literal_template (l @ [DOLLAR])" using assms(2) by (rule lit)
  ultimately show ?thesis by (simp add: js_def l DOLLAR_def)
qed

lemma table_rule_map:
  assumes "symbol_table tbl"
  shows "foldl (\<lambda>processed (char, latex).
              replace [Lit char] (Template (js ''$'' @ latex @ js ''$'')) processed) s tbl
       = concat (map (wrapWith tbl) s)"
proof -
  have "foldl (\<lambda>processed (char, latex).
              replace [Lit char] (Template (js ''$'' @ latex @ js ''$'')) processed) s tbl
      = foldl (\<lambda>s (c, l). concat (map (\<lambda>x. if x = c then js ''$'' @ l @ js ''$'' else [x]) s)) s tbl"
  proof (rule foldl_cong [OF refl refl])
    fix a :: jsstring and x :: "cu \<times> jsstring"
    assume "x \<in> set tbl"
    with assms have "snd x \<noteq> []" "\<forall>y\<in>set (snd x). name_char y"
      by (auto simp: symbol_table_def)
    then have "literal_template (js ''$'' @ snd x @ js ''$'')" by (rule name_template_literal)
    then show "(case x of (char, latex) \<Rightarrow> replace [Lit char] (Template (js ''$'' @ latex @ js ''$'')) a)
       = (case x of (c, l) \<Rightarrow> concat (map (\<lambda>x. if x = c then js ''$'' @ l @ js ''$'' else [x]) a))"
      by (simp add: case_prod_beta replace_def replace_Lit)
  qed
  also have "\<dots> = concat (map (\<lambda>c. case map_of tbl c of
       Some latex \<Rightarrow> js ''$'' @ latex @ js ''$'' | None \<Rightarrow> [c]) s)"
  proof (rule foldl_substitutions)
    fix c l x assume cl: "(c, l) \<in> set tbl" and x: "x \<in> set (js ''$'' @ l @ js ''$'')"
    from cl assms have "\<forall>y\<in>set l. name_char y" by (auto simp: symbol_table_def)
    with x have "x < 0x80" by (auto simp: js_def dest: name_char_ascii)
    moreover have "\<forall>k\<in>fst ` set tbl. 0x80 \<le> k"
      using assms by (auto simp: symbol_table_def)
    ultimately show "x \<notin> fst ` set tbl" by auto
  qed
  finally show ?thesis by (simp add: wrapWith_def [abs_def])
qed

lemma greek_table: "symbol_table greekLetters"
  unfolding symbol_table_def by code_simp

lemma operator_table: "symbol_table operatorSymbols"
  unfolding symbol_table_def by code_simp

lemma greekRule_wrap: "greekRule s = concat (map (wrapWith greekLetters) s)"
  unfolding greekRule_def by (rule table_rule_map [OF greek_table])

lemma operatorRule_wrap: "operatorRule s = concat (map (wrapWith operatorSymbols) s)"
proof -
  have "operatorRule s = foldl (\<lambda>processed (char, latex).
              replace [Lit char] (Template (js ''$'' @ latex @ js ''$'')) processed) s operatorSymbols"
    by (simp add: operatorRule_def operatorSymbols_def Let_def js_def)
  then show ?thesis by (simp only: table_rule_map [OF operator_table])
qed

lemma greek_size: "length greekLetters = 33 \<and> distinct (map fst greekLetters)"
  by code_simp

text \<open>
  C4, as the spec states it: the letters of the Greek rule are a fixed set of exactly 31.
  The table of the source has 33 distinct keys.
\<close>

theorem C4_greek_count_counterexample: "length (remdups (map fst greekLetters)) \<noteq> 31"
  using greek_size by (simp add: distinct_remdups_id)

text \<open>
  C4, amended: the Greek rule replaces every occurrence of each of the 33 letters of its
  table by the LaTeX name of the letter between two \<open>$\<close>, one letter at a time and
  whatever stands around it, and leaves every other character as it is; \<open>\<pi>\<close> becomes
  \<open>$\pi$\<close>.
\<close>

theorem C4_greekRule:
  "greekRule s = concat (map (\<lambda>c. case map_of greekLetters c of
       Some latex \<Rightarrow> js ''$'' @ latex @ js ''$'' | None \<Rightarrow> [c]) s)
   \<and> length greekLetters = 33 \<and> distinct (map fst greekLetters)
   \<and> greekRule [0x3C0] = js ''$'' @ BACKSLASH # js ''pi$''"
  using greekRule_wrap [of s] greek_size
  by (simp add: wrapWith_def [abs_def] greekRule_wrap [of "[0x3C0]"] greekLetters_def js_def)

section \<open>The line reconstructor\<close>


lemma lineBreaks_Nil [simp]: "lineBreaks [] = 0"
  by (simp add: lineBreaks_def)

lemma lineBreaks_Cons [simp]: "lineBreaks (x # xs) = (if x = NEWLINE then 1 else 0) + lineBreaks xs"
  by (simp add: lineBreaks_def)






















section \<open>The event stream\<close>

lemma pageNumbers_append: "pageNumbers (es @ fs) = pageNumbers es @ pageNumbers fs"
  by (induction es rule: pageNumbers.induct) simp_all

lemma pageLoop_events:
  "pageLoop pdf p ctl = (r, ctl') \<Longrightarrow> p \<le> Suc (numPages pdf) \<Longrightarrow>
     closed ctl' = closed ctl
     \<and> filter is_terminal (queue ctl') = filter is_terminal (queue ctl)
     \<and> (case find (\<lambda>n. \<not> is_resolved (getPage pdf n)) [p..<Suc (numPages pdf)] of
          None \<Rightarrow> r = None \<and> pageNumbers (queue ctl') = pageNumbers (queue ctl) @ [p..<Suc (numPages pdf)]
        | Some n \<Rightarrow> r = Some (case getPage pdf n of Rejected e \<Rightarrow> e | Resolved x \<Rightarrow> OtherValue)
            \<and> pageNumbers (queue ctl') = pageNumbers (queue ctl) @ [p..<n])"
proof (induction pdf p ctl arbitrary: r ctl' rule: pageLoop.induct)
  case (1 pdf pageNum ctl)
  let ?N = "numPages pdf"
  let ?ctl1 = "enqueue (ProgressEvent (js ''Processing page '' @ decimal pageNum @ js '' of ''
                     @ decimal ?N @ js ''...'')) ctl"
  show ?case
  proof (cases "pageNum \<le> ?N")
    case False
    with "1.prems"(1) have "r = None" "ctl' = ctl"
      by (simp_all add: pageLoop.simps [of pdf pageNum ctl])
    moreover from False have "[pageNum..<Suc ?N] = []" by simp
    ultimately show ?thesis by (simp del: upt_Suc)
  next
    case le: True
    then have upt: "[pageNum..<Suc ?N] = pageNum # [Suc pageNum..<Suc ?N]"
      by (simp add: upt_conv_Cons del: upt_Suc)
    show ?thesis
    proof (cases "getPage pdf pageNum")
      case (Rejected e)
      with le "1.prems"(1) have "r = Some e" "ctl' = ?ctl1"
        by (simp_all add: pageLoop.simps [of pdf pageNum ctl] Let_def)
      with Rejected show ?thesis by (simp add: upt enqueue_def pageNumbers_append del: upt_Suc)
    next
      case (Resolved textItems)
      let ?ctl2 = "enqueue (PageEvent pageNum (detectMathPatterns (reconstructPage textItems))) ?ctl1"
      from le Resolved "1.prems"(1) have rec: "pageLoop pdf (pageNum + 1) ?ctl2 = (r, ctl')"
        by (simp add: pageLoop.simps [of pdf pageNum ctl] Let_def)
      from le have "pageNum + 1 \<le> Suc ?N" by simp
      from "1.IH" [OF le refl Resolved refl refl refl rec this]
      have IH: "closed ctl' = closed ?ctl2"
        "filter is_terminal (queue ctl') = filter is_terminal (queue ?ctl2)"
        "(case find (\<lambda>n. \<not> is_resolved (getPage pdf n)) [Suc pageNum..<Suc ?N] of
          None \<Rightarrow> r = None \<and> pageNumbers (queue ctl') = pageNumbers (queue ?ctl2) @ [Suc pageNum..<Suc ?N]
        | Some n \<Rightarrow> r = Some (case getPage pdf n of Rejected e \<Rightarrow> e | Resolved x \<Rightarrow> OtherValue)
            \<and> pageNumbers (queue ctl') = pageNumbers (queue ?ctl2) @ [Suc pageNum..<n])"
        by (simp_all del: upt_Suc cong: option.case_cong)
      have q2 [simp]: "pageNumbers (queue ?ctl2) = pageNumbers (queue ctl) @ [pageNum]"
        "filter is_terminal (queue ?ctl2) = filter is_terminal (queue ctl)"
        "closed ?ctl2 = closed ctl"
        by (simp_all add: enqueue_def pageNumbers_append)
      show ?thesis
      proof (cases "find (\<lambda>n. \<not> is_resolved (getPage pdf n)) [Suc pageNum..<Suc ?N]")
        case None
        with IH q2 Resolved show ?thesis by (simp add: upt del: upt_Suc)
      next
        case (Some n)
        then have "n \<in> set [Suc pageNum..<Suc ?N]"
          by (auto simp: find_Some_iff in_set_conv_nth simp del: upt_Suc)
        then have "pageNum < n" by (simp del: upt_Suc)
        then have "[pageNum..<n] = pageNum # [Suc pageNum..<n]" by (simp add: upt_conv_Cons)
        with IH q2 Resolved Some show ?thesis by (simp add: upt del: upt_Suc)
      qed
    qed
  qed
qed

text \<open>
  C8: without a file in the request, the stream holds one event, the error
  \<open>No file provided\<close>, and is closed.
\<close>

theorem C8_no_file:
  "POST (Resolved None) = \<lparr>queue = [ErrorEvent (js ''No file provided'')], closed = True\<rparr>"
  by (simp add: POST_def tryBlock_def enqueue_def close_def)

text \<open>
  C9, as the spec states it: a document that decodes with N pages gives the page events
  1, ..., N. A document of one page whose page cannot be read gives no page event.
\<close>

theorem C9_page_failure_counterexample:
  "pageNumbers (queue (POST (Resolved (Some (Resolved brokenPdf))))) \<noteq> [1..<Suc (numPages brokenPdf)]"
  by (simp add: brokenPdf_def POST_def tryBlock_def Let_def pageLoop.simps enqueue_def close_def
      catchBlock_def)

text \<open>
  C9, amended: for a document that decodes with N pages, the page events are those of the
  pages 1, ..., N in this order, one each, when every page can be read, and the stream then
  ends with the complete event; when page n is the first that cannot be read, the page events
  are those of the pages 1, ..., n - 1 and the stream ends with the error event of that
  failure. In both cases the stream holds exactly one terminal event, its last event, and is
  closed.
\<close>

theorem C9_page_order:
  fixes pdf :: pdf
  shows "(case find (\<lambda>n. \<not> is_resolved (getPage pdf n)) [1..<Suc (numPages pdf)] of
            None \<Rightarrow> pageNumbers (queue (POST (Resolved (Some (Resolved pdf))))) = [1..<Suc (numPages pdf)]
              \<and> last (queue (POST (Resolved (Some (Resolved pdf))))) = CompleteEvent (js ''Processing complete!'')
          | Some n \<Rightarrow> pageNumbers (queue (POST (Resolved (Some (Resolved pdf))))) = [1..<n]
              \<and> last (queue (POST (Resolved (Some (Resolved pdf)))))
                  = ErrorEvent (case getPage pdf n of Rejected e \<Rightarrow> thrown_message e | Resolved x \<Rightarrow> []))
         \<and> filter is_terminal (queue (POST (Resolved (Some (Resolved pdf)))))
             = [last (queue (POST (Resolved (Some (Resolved pdf)))))]
         \<and> closed (POST (Resolved (Some (Resolved pdf))))"
proof -
  let ?c0 = "\<lparr>queue = [], closed = False\<rparr>"
  let ?c1 = "enqueue (ProgressEvent (js ''Loading PDF...'')) ?c0"
  let ?c2 = "enqueue (ProgressEvent (js ''Processing '' @ decimal (numPages pdf) @ js '' pages...'')) ?c1"
  obtain r ctl' where loop: "pageLoop pdf 1 ?c2 = (r, ctl')" by (cases "pageLoop pdf 1 ?c2")
  have "(1::nat) \<le> Suc (numPages pdf)" by simp
  from pageLoop_events [OF loop this]
  have ev: "closed ctl' = False" "filter is_terminal (queue ctl') = []"
    "(case find (\<lambda>n. \<not> is_resolved (getPage pdf n)) [1..<Suc (numPages pdf)] of
          None \<Rightarrow> r = None \<and> pageNumbers (queue ctl') = [1..<Suc (numPages pdf)]
        | Some n \<Rightarrow> r = Some (case getPage pdf n of Rejected e \<Rightarrow> e | Resolved x \<Rightarrow> OtherValue)
            \<and> pageNumbers (queue ctl') = [1..<n])"
    by (simp_all add: enqueue_def del: upt_Suc cong: option.case_cong)
  have post: "POST (Resolved (Some (Resolved pdf)))
      = (case r of None \<Rightarrow> close (enqueue (CompleteEvent (js ''Processing complete!'')) ctl')
         | Some e \<Rightarrow> catchBlock e ctl')"
    using loop by (simp add: POST_def tryBlock_def Let_def split: option.splits)
  show ?thesis
  proof (cases "find (\<lambda>n. \<not> is_resolved (getPage pdf n)) [1..<Suc (numPages pdf)]")
    case None
    with ev have "r = None" "pageNumbers (queue ctl') = [1..<Suc (numPages pdf)]" by simp_all
    with None ev(1,2) show ?thesis
      by (simp add: post close_def enqueue_def pageNumbers_append del: upt_Suc)
  next
    case (Some n)
    with ev have r: "r = Some (case getPage pdf n of Rejected e \<Rightarrow> e | Resolved x \<Rightarrow> OtherValue)"
      and pn: "pageNumbers (queue ctl') = [1..<n]" by simp_all
    from Some have "\<not> is_resolved (getPage pdf n)" by (auto simp: find_Some_iff)
    then obtain e where "getPage pdf n = Rejected e" by (cases "getPage pdf n") auto
    with r pn Some ev(1,2) show ?thesis
      by (simp add: post catchBlock_def close_def enqueue_def pageNumbers_append thrown_message_def
          del: upt_Suc)
  qed
qed

section \<open>The markup segmenter: coverage\<close>

lemma rmatch_display:
  assumes "rmatch displayMathRegex init s = Some (st, r)"
  shows "matched st = DOLLAR # DOLLAR # group1 st @ [DOLLAR, DOLLAR]"
proof -
  let ?k = "\<lambda>st. one (\<lambda>x. x = DOLLAR) (one (\<lambda>x. x = DOLLAR) (\<lambda>st s. Some (st, s))) (close_group st)"
  let ?st2 = "\<lparr>matched = [DOLLAR, DOLLAR], opens = [Suc (Suc 0)], caps = []\<rparr>"
  from assms obtain s' where s: "s = DOLLAR # DOLLAR # s'"
    and lazy: "star_lazy dot ?k ?st2 s' = Some (st, r)"
    by (cases s; cases "tl s")
       (auto simp: displayMathRegex_def init_def eat_def open_group_def split: if_splits)
  from star_lazy_split [OF lazy] obtain pre post where
    "s' = pre @ post" and k: "?k (?st2\<lparr>matched := matched ?st2 @ pre\<rparr>) post = Some (st, r)"
    by blast
  from k show ?thesis
    by (cases post; cases "tl post")
       (auto simp: close_group_def eat_def group1_def split: if_splits)
qed

lemma rmatch_inline:
  assumes "rmatch inlineMathRegex init s = Some (st, r)"
  shows "matched st = DOLLAR # group1 st @ [DOLLAR]"
proof -
  let ?k = "\<lambda>st. one (\<lambda>x. x = DOLLAR) (\<lambda>st s. Some (st, s)) (close_group st)"
  let ?st2 = "\<lparr>matched = [DOLLAR], opens = [Suc 0], caps = []\<rparr>"
  from assms obtain s' where s: "s = DOLLAR # s'"
    and lazy: "star_lazy dot ?k ?st2 s' = Some (st, r)"
    by (cases s)
       (auto simp: inlineMathRegex_def init_def eat_def open_group_def split: if_splits)
  from star_lazy_split [OF lazy] obtain pre post where
    "s' = pre @ post" and k: "?k (?st2\<lparr>matched := matched ?st2 @ pre\<rparr>) post = Some (st, r)"
    by blast
  from k show ?thesis
    by (cases post)
       (auto simp: close_group_def eat_def group1_def split: if_splits)
qed

lemma execLoop_covers:
  assumes shape: "\<And>s st r. rmatch regex init s = Some (st, r) \<Longrightarrow>
      matched st \<noteq> [] \<and> raw (MathSpan displayMode (group1 st)) = matched st"
  shows "\<exists>children rest found. execLoop regex displayMode s = Some (children, rest, found)
     \<and> concat (map raw children) @ rest = s \<and> (found \<longleftrightarrow> children \<noteq> [])"
proof (induction "length s" arbitrary: s rule: less_induct)
  case less
  show ?case
  proof (cases "exec regex s")
    case None
    then show ?thesis by (simp add: execLoop.simps [of regex displayMode s])
  next
    case (Some a)
    then obtain pre st rhs where ex: "exec regex s = Some (pre, st, rhs)" by (cases a) auto
    from exec_Some [OF ex] have s: "s = pre @ matched st @ rhs"
      and m: "rmatch regex init (matched st @ rhs) = Some (st, rhs)" by simp_all
    from shape [OF m] have ne: "matched st \<noteq> []"
      and rw: "raw (MathSpan displayMode (group1 st)) = matched st" by simp_all
    from s ne have "length rhs < length s" by (cases "matched st") simp_all
    from less [OF this] obtain children rest found where
      rec: "execLoop regex displayMode rhs = Some (children, rest, found)"
      and cov: "concat (map raw children) @ rest = rhs" by blast
    have "execLoop regex displayMode s
        = Some ((if pre \<noteq> [] then [TextSpan pre] else [])
                  @ MathSpan displayMode (group1 st) # children, rest, True)"
      using ex ne rec by (simp add: execLoop.simps [of regex displayMode s])
    moreover have "concat (map raw ((if pre \<noteq> [] then [TextSpan pre] else [])
                  @ MathSpan displayMode (group1 st) # children)) @ rest = s"
      using s cov rw by (simp add: raw_def [of "TextSpan pre"])
    ultimately show ?thesis by simp
  qed
qed

lemma display_shape:
  "rmatch displayMathRegex init s = Some (st, r) \<Longrightarrow>
     matched st \<noteq> [] \<and> raw (MathSpan True (group1 st)) = matched st"
  by (frule rmatch_display) (simp add: raw_def js_def DOLLAR_def)

lemma inline_shape:
  "rmatch inlineMathRegex init s = Some (st, r) \<Longrightarrow>
     matched st \<noteq> [] \<and> raw (MathSpan False (group1 st)) = matched st"
  by (frule rmatch_inline) (simp add: raw_def js_def DOLLAR_def)

lemma renderLine_covers:
  assumes "line \<noteq> []"
  shows "\<exists>children. renderLine line = Some children \<and> concat (map raw children) = line"
proof -
  have "\<exists>children rest found. execLoop displayMathRegex True line = Some (children, rest, found)
     \<and> concat (map raw children) @ rest = line \<and> (found \<longleftrightarrow> children \<noteq> [])"
    by (rule execLoop_covers) (rule display_shape)
  then obtain c1 r1 f1 where d: "execLoop displayMathRegex True line = Some (c1, r1, f1)"
    and cov1: "concat (map raw c1) @ r1 = line" and f1: "f1 \<longleftrightarrow> c1 \<noteq> []" by blast
  show ?thesis
  proof (cases f1)
    case True
    with f1 have "c1 \<noteq> []" by simp
    with d True have "renderLine line = Some (c1 @ (if r1 \<noteq> [] then [TextSpan r1] else []))"
      by (simp add: renderLine_def Let_def)
    moreover have "concat (map raw (c1 @ (if r1 \<noteq> [] then [TextSpan r1] else []))) = line"
      using cov1 by (auto simp: raw_def [of "TextSpan r1"])
    ultimately show ?thesis by blast
  next
    case False
    have "\<exists>children rest found. execLoop inlineMathRegex False line = Some (children, rest, found)
       \<and> concat (map raw children) @ rest = line \<and> (found \<longleftrightarrow> children \<noteq> [])"
      by (rule execLoop_covers) (rule inline_shape)
    then obtain c2 r2 f2 where i: "execLoop inlineMathRegex False line = Some (c2, r2, f2)"
      and cov2: "concat (map raw c2) @ r2 = line" by blast
    from cov2 assms have ne: "c2 @ (if r2 \<noteq> [] then [TextSpan r2] else []) \<noteq> []"
      by auto
    from d i False ne have "renderLine line = Some (c2 @ (if r2 \<noteq> [] then [TextSpan r2] else []))"
      by (simp add: renderLine_def Let_def)
    moreover have "concat (map raw (c2 @ (if r2 \<noteq> [] then [TextSpan r2] else []))) = line"
      using cov2 by (auto simp: raw_def [of "TextSpan r2"])
    ultimately show ?thesis by blast
  qed
qed

lemma renderLine_empty: "renderLine [] = Some [TextNode [NBSP]]"
  by code_simp

lemma renderLine_example:
  "renderLine (js ''a $$x=1$$ b $y$'')
     = Some [TextSpan (js ''a ''), MathSpan True (js ''x=1''), TextSpan (js '' b $y$'')]"
  by code_simp

text \<open>
  C6, as the spec states it: for every line the raw texts of the segments, concatenated, are
  the line. For the empty line the code sets the text of the line element to a no-break
  space, which is not the empty line.
\<close>

theorem C6_counterexample:
  "renderLine [] = Some [TextNode [NBSP]] \<and> concat (map raw [TextNode [NBSP]]) \<noteq> []"
  using renderLine_empty by (simp add: raw_def)

text \<open>
  C6, amended: for every line that is not empty, the segmenter returns a sequence of
  segments (text, block math, inline math) whose raw texts, a math segment with its
  delimiters, concatenated in order are the line; the empty line gives one text node that
  holds a no-break space.
\<close>

theorem C6_segment_coverage:
  "(line \<noteq> [] \<longrightarrow> (\<exists>children. renderLine line = Some children \<and> concat (map raw children) = line))
   \<and> renderLine [] = Some [TextNode [NBSP]]"
  using renderLine_covers [of line] renderLine_empty by blast

theorem C6_segment_coverage_witness:
  "js ''a $$x=1$$ b $y$'' \<noteq> []
   \<and> (\<exists>children. renderLine (js ''a $$x=1$$ b $y$'') = Some children
         \<and> concat (map raw children) = js ''a $$x=1$$ b $y$'')
   \<and> renderLine (js ''a $$x=1$$ b $y$'')
       = Some [TextSpan (js ''a ''), MathSpan True (js ''x=1''), TextSpan (js '' b $y$'')]"
  using C6_segment_coverage [of "js ''a $$x=1$$ b $y$''"] renderLine_example
  by (simp add: js_def)

section \<open>The equation-detection rule\<close>

lemma eq_class_not_EQ: "eq_class c \<Longrightarrow> c \<noteq> ch CHR ''=''"
  by (auto simp: eq_class_def alnum_def white_def line_terminator_def ch_def)

lemma eq_class_not_DOLLAR: "eq_class c \<Longrightarrow> c \<noteq> DOLLAR"
  by (auto simp: eq_class_def alnum_def white_def line_terminator_def DOLLAR_def)

lemma rmatch_equation:
  "rmatch equationPattern init s =
     (if takeWhile eq_class s = [] then None
      else case dropWhile eq_class s of
             [] \<Rightarrow> None
           | e # u \<Rightarrow>
               if e \<noteq> ch CHR ''='' \<or> takeWhile eq_class u = [] then None
               else Some (\<lparr>matched = takeWhile eq_class s @ ch CHR ''='' # takeWhile eq_class u,
                           opens = [],
                           caps = [takeWhile eq_class s @ ch CHR ''='' # takeWhile eq_class u]\<rparr>,
                          dropWhile eq_class u))"
proof -
  let ?st1 = "(open_group init)\<lparr>matched := matched (open_group init) @ takeWhile eq_class s\<rparr>"
  have 1: "\<And>st' x xs. eq_class x \<Longrightarrow>
      rmatch (Lit (ch CHR ''='') # Plus eq_class # [Close]) st' (x # xs) = None"
    by (simp add: eq_class_not_EQ)
  have 2: "\<And>st' s'. rmatch [Close] st' s' \<noteq> None" by simp
  have "rmatch equationPattern init s
      = rmatch (Plus eq_class # Lit (ch CHR ''='') # Plus eq_class # [Close]) (open_group init) s"
    by (simp add: equationPattern_def)
  also have "\<dots> = (if takeWhile eq_class s = [] then None
      else rmatch (Lit (ch CHR ''='') # Plus eq_class # [Close]) ?st1 (dropWhile eq_class s))"
    by (rule Plus_max [OF 1])
  finally have A: "rmatch equationPattern init s = (if takeWhile eq_class s = [] then None
      else rmatch (Lit (ch CHR ''='') # Plus eq_class # [Close]) ?st1 (dropWhile eq_class s))" .
  have B: "rmatch (Lit (ch CHR ''='') # Plus eq_class # [Close]) ?st1 [] = None" by simp
  have C: "\<And>e u. rmatch (Lit (ch CHR ''='') # Plus eq_class # [Close]) ?st1 (e # u)
      = (if e \<noteq> ch CHR ''='' \<or> takeWhile eq_class u = [] then None
         else Some (\<lparr>matched = takeWhile eq_class s @ ch CHR ''='' # takeWhile eq_class u,
                     opens = [],
                     caps = [takeWhile eq_class s @ ch CHR ''='' # takeWhile eq_class u]\<rparr>,
                    dropWhile eq_class u))"
  proof -
    fix e u
    have "rmatch (Lit (ch CHR ''='') # Plus eq_class # [Close]) ?st1 (e # u)
        = (if e = ch CHR ''='' then rmatch (Plus eq_class # [Close]) (eat e ?st1) u else None)"
      by simp
    also have "rmatch (Plus eq_class # [Close]) (eat e ?st1) u
        = (if takeWhile eq_class u = [] then None
           else rmatch [Close] ((eat e ?st1)\<lparr>matched := matched (eat e ?st1) @ takeWhile eq_class u\<rparr>)
                  (dropWhile eq_class u))"
      by (rule Plus_end [OF 2])
    finally show "rmatch (Lit (ch CHR ''='') # Plus eq_class # [Close]) ?st1 (e # u)
      = (if e \<noteq> ch CHR ''='' \<or> takeWhile eq_class u = [] then None
         else Some (\<lparr>matched = takeWhile eq_class s @ ch CHR ''='' # takeWhile eq_class u,
                     opens = [],
                     caps = [takeWhile eq_class s @ ch CHR ''='' # takeWhile eq_class u]\<rparr>,
                    dropWhile eq_class u))"
      by (simp add: open_group_def close_group_def init_def eat_def)
  qed
  show ?thesis
    by (cases "dropWhile eq_class s") (simp_all only: A B C list.case)
qed

lemma test_Cls: "test [Cls p] s \<longleftrightarrow> (\<exists>c\<in>set s. p c)"
  by (induction s) (auto simp: test_def exec.simps split: option.splits)

lemma replace_loop_callback_cong:
  assumes "\<And>s st r. rmatch re init s = Some (st, r) \<Longrightarrow> matched st \<noteq> [] \<and> f (matched st) = g (matched st)"
  shows "replace_loop re (Callback f) lhs s = replace_loop re (Callback g) lhs' s"
proof (induction "length s" arbitrary: s lhs lhs' rule: less_induct)
  case less
  show ?case
  proof (cases "exec re s")
    case None
    then show ?thesis by (simp add: replace_loop_None)
  next
    case (Some a)
    then obtain pre st r where ex: "exec re s = Some (pre, st, r)" by (cases a) auto
    from exec_Some [OF ex] have s: "s = pre @ matched st @ r"
      and m: "rmatch re init (matched st @ r) = Some (st, r)" by simp_all
    from assms [OF m] have ne: "matched st \<noteq> []" and fg: "f (matched st) = g (matched st)"
      by simp_all
    from s ne have "length r < length s" by (cases "matched st") simp_all
    from less [OF this] have "replace_loop re (Callback f) (lhs @ pre @ matched st) r
        = replace_loop re (Callback g) (lhs' @ pre @ matched st) r" .
    with fg show ?thesis
      by (simp add: replace_loop_Some [OF ex ne] substitute_def)
  qed
qed

lemma equation_match_facts:
  assumes "rmatch equationPattern init s = Some (st, r)"
  shows "matched st \<noteq> []" and "DOLLAR \<notin> set (matched st)" and "test [Cls op_class] (matched st)"
proof -
  from equation_shape [OF assms] obtain a b where m: "matched st = a @ ch CHR ''='' # b"
    and ab: "\<forall>c\<in>set a. eq_class c" "\<forall>c\<in>set b. eq_class c" by blast
  from m show "matched st \<noteq> []" by simp
  have "ch CHR ''='' \<noteq> DOLLAR" by (simp add: ch_def DOLLAR_def)
  with m ab show "DOLLAR \<notin> set (matched st)"
    by (auto dest: eq_class_not_DOLLAR)
  have "op_class (ch CHR ''='')" by (simp add: op_class_def ch_def)
  with m show "test [Cls op_class] (matched st)" by (auto simp: test_Cls)
qed

lemma equationCallback_match:
  assumes "rmatch equationPattern init s = Some (st, r)"
  shows "equationCallback (matched st) = unguardedCallback (matched st)"
    and "equationCallback (matched st)
       = (if test [Cls digit] (matched st) then js ''$$'' @ trim (matched st) @ js ''$$'' else matched st)"
  using equation_match_facts [OF assms]
  by (simp_all add: equationCallback_def unguardedCallback_def includes_cu_def)

lemma equation_rule_example: "equationRule (js ''x=1 and y=2'') = js ''$$x=1 and y$$=2''"
  by code_simp

lemma equation_exec_example:
  "exec equationPattern (js ''x=1 and y=2'')
     = Some ([], \<lparr>matched = js ''x=1 and y'', opens = [], caps = [js ''x=1 and y'']\<rparr>, js ''=2'')"
  by code_simp

lemma equationRule_unfold:
  "equationRule s =
     (case exec equationPattern s of
        None \<Rightarrow> s
      | Some (pre, st, r) \<Rightarrow>
          pre @ (if test [Cls digit] (matched st)
                 then js ''$$'' @ trim (matched st) @ js ''$$'' else matched st) @ equationRule r)"
proof (cases "exec equationPattern s")
  case None
  then show ?thesis by (simp add: equationRule_def replace_def replace_loop_None)
next
  case (Some a)
  then obtain pre st r where ex: "exec equationPattern s = Some (pre, st, r)" by (cases a) auto
  from exec_Some [OF ex] have m: "rmatch equationPattern init (matched st @ r) = Some (st, r)"
    by simp
  have "replace_loop equationPattern (Callback equationCallback) ([] @ pre @ matched st) r
      = replace_loop equationPattern (Callback equationCallback) [] r"
    by (rule replace_loop_callback_cong) (simp add: equation_match_facts(1))
  then show ?thesis
    using ex equationCallback_match(2) [OF m]
    by (simp add: equationRule_def replace_def
        replace_loop_Some [OF ex equation_match_facts(1) [OF m]] substitute_def)
qed

lemma rmatch_equation_hit:
  assumes "a \<noteq> []" "\<forall>c\<in>set a. eq_class c" "b \<noteq> []" "\<forall>c\<in>set b. eq_class c"
  shows "rmatch equationPattern init (a @ ch CHR ''='' # b @ r) \<noteq> None"
proof -
  have ne: "\<not> eq_class (ch CHR ''='')" using eq_class_not_EQ by blast
  have tw: "takeWhile eq_class (a @ ch CHR ''='' # b @ r) = a"
    using assms(2) ne by (simp add: takeWhile_tail takeWhile_eq_all_conv)
  have dw: "dropWhile eq_class (a @ ch CHR ''='' # b @ r) = ch CHR ''='' # b @ r"
    using assms(2) ne by (simp add: dropWhile_append2)
  from assms(3,4) have tb: "takeWhile eq_class (b @ r) \<noteq> []" by (cases b) auto
  show ?thesis using assms(1) tb by (simp add: rmatch_equation tw dw)
qed

lemma equation_right_maximal:
  assumes "rmatch equationPattern init s = Some (st, r)"
  shows "r = [] \<or> \<not> eq_class (hd r)"
proof (cases "dropWhile eq_class s")
  case Nil
  from assms have False unfolding rmatch_equation Nil by (simp split: if_splits)
  then show ?thesis ..
next
  case (Cons e u)
  from assms have "r = dropWhile eq_class u"
    unfolding rmatch_equation Cons by (simp split: if_splits)
  then show ?thesis using hd_dropWhile [of eq_class u] by auto
qed

lemma equation_match_maximal:
  assumes ex: "exec equationPattern s = Some (pre, st, r)"
  shows "\<exists>a b. matched st = a @ ch CHR ''='' # b \<and> a \<noteq> [] \<and> b \<noteq> []
      \<and> (\<forall>c\<in>set a. eq_class c) \<and> (\<forall>c\<in>set b. eq_class c)
      \<and> (pre = [] \<or> \<not> eq_class (last pre)) \<and> (r = [] \<or> \<not> eq_class (hd r))"
proof -
  note es = exec_Some [OF ex]
  from es have s: "s = pre @ matched st @ r" by (rule conjunct1)
  from es have m: "rmatch equationPattern init (matched st @ r) = Some (st, r)"
    by (rule conjunct2 [THEN conjunct1])
  from es have first: "\<forall>i<length pre. rmatch equationPattern init (drop i s) = None"
    by (rule conjunct2 [THEN conjunct2])
  from equation_shape [OF m] obtain a b where ms: "matched st = a @ ch CHR ''='' # b"
    and a: "a \<noteq> []" "\<forall>c\<in>set a. eq_class c" and b: "b \<noteq> []" "\<forall>c\<in>set b. eq_class c" by blast
  note right = equation_right_maximal [OF m]
  have left: "pre = [] \<or> \<not> eq_class (last pre)"
  proof (rule ccontr)
    assume "\<not> (pre = [] \<or> \<not> eq_class (last pre))"
    then have pre: "pre \<noteq> []" and l: "eq_class (last pre)" by simp_all
    let ?i = "length pre - 1"
    from pre have i: "?i < length pre" by simp
    from pre have "butlast pre @ [last pre] = pre" by simp
    then have "s = butlast pre @ ((last pre # a) @ ch CHR ''='' # b @ r)"
      unfolding s ms by (metis append.assoc append_Cons append_Nil)
    then have "drop (length (butlast pre)) s = (last pre # a) @ ch CHR ''='' # b @ r"
      by simp
    then have d: "drop ?i s = (last pre # a) @ ch CHR ''='' # b @ r" by simp
    have "rmatch equationPattern init ((last pre # a) @ ch CHR ''='' # b @ r) \<noteq> None"
      using l a(2) b by (intro rmatch_equation_hit) auto
    moreover from first i have "rmatch equationPattern init (drop ?i s) = None" by blast
    ultimately show False unfolding d by simp
  qed
  from ms a b left right show ?thesis by blast
qed

text \<open>
  C10: a match of the equation pattern holds no \<open>$\<close>, so the callback never takes its
  first branch: the rule is the same with the callback that only looks for an operator and
  for a digit.
\<close>

theorem C10_guard_unreachable:
  "(\<forall>pre st r. exec equationPattern s = Some (pre, st, r) \<longrightarrow> \<not> includes_cu (matched st) DOLLAR)
   \<and> equationRule s = replace equationPattern (Callback unguardedCallback) s"
proof
  show "\<forall>pre st r. exec equationPattern s = Some (pre, st, r) \<longrightarrow> \<not> includes_cu (matched st) DOLLAR"
  proof (intro allI impI)
    fix pre st r assume "exec equationPattern s = Some (pre, st, r)"
    from exec_Some [OF this] have "rmatch equationPattern init (matched st @ r) = Some (st, r)"
      by simp
    from equation_match_facts(2) [OF this] show "\<not> includes_cu (matched st) DOLLAR"
      by (simp add: includes_cu_def)
  qed
  show "equationRule s = replace equationPattern (Callback unguardedCallback) s"
    unfolding equationRule_def replace_def
    by (rule replace_loop_callback_cong)
       (simp add: equation_match_facts(1) equationCallback_match(1))
qed

theorem C10_guard_unreachable_witness:
  "exec equationPattern (js ''x=1 and y=2'')
     = Some ([], \<lparr>matched = js ''x=1 and y'', opens = [], caps = [js ''x=1 and y'']\<rparr>, js ''=2'')
   \<and> \<not> includes_cu (js ''x=1 and y'') DOLLAR
   \<and> replace equationPattern (Callback unguardedCallback) (js ''x=1 and y=2'') = js ''$$x=1 and y$$=2''"
  using C10_guard_unreachable [of "js ''x=1 and y=2''"] equation_exec_example equation_rule_example
  by auto

text \<open>
  C2, as the spec states it: a run over the character class and \<open>=\<close> with two \<open>=\<close>
  signs, such as \<open>x=1 and y=2\<close>, is wrapped as one block. The pattern of the code has no
  \<open>=\<close> in its class: the match ends before the second \<open>=\<close>.
\<close>

theorem C2_counterexample: "equationRule (js ''x=1 and y=2'') \<noteq> js ''$$x=1 and y=2$$''"
  unfolding equation_rule_example by (simp add: js_def)

text \<open>
  C2, amended: on every string, the rule looks for the leftmost match of the pattern from the
  end of the match before; a match is a run of characters of the class (which has no
  \<open>=\<close>), one \<open>=\<close>, and a second such run, both runs not empty and as long as they can be
  (the character before the match and the one after it, if any, are not of the class); the
  match is replaced by its trimmed text between \<open>$$\<close> and \<open>$$\<close> when it holds a digit and is
  kept otherwise, and the text between the matches is kept. A second \<open>=\<close> ends the match:
  \<open>x=1 and y=2\<close> becomes \<open>$$x=1 and y$$=2\<close>.
\<close>

theorem C2_equation_rule:
  "equationRule s =
     (case exec equationPattern s of
        None \<Rightarrow> s
      | Some (pre, st, r) \<Rightarrow>
          pre @ (if test [Cls digit] (matched st)
                 then js ''$$'' @ trim (matched st) @ js ''$$'' else matched st) @ equationRule r)
   \<and> (\<forall>pre st r. exec equationPattern s = Some (pre, st, r) \<longrightarrow>
        (\<exists>a b. matched st = a @ ch CHR ''='' # b \<and> a \<noteq> [] \<and> b \<noteq> []
           \<and> (\<forall>c\<in>set a. eq_class c) \<and> (\<forall>c\<in>set b. eq_class c)
           \<and> (pre = [] \<or> \<not> eq_class (last pre)) \<and> (r = [] \<or> \<not> eq_class (hd r))))
   \<and> equationRule (js ''x=1 and y=2'') = js ''$$x=1 and y$$=2''"
  using equationRule_unfold [of s] equation_match_maximal [of s] equation_rule_example
  by blast

theorem C2_equation_rule_witness:
  "exec equationPattern (js ''x=1 and y=2'')
     = Some ([], \<lparr>matched = js ''x=1 and y'', opens = [], caps = [js ''x=1 and y'']\<rparr>, js ''=2'')
   \<and> (\<exists>a b. js ''x=1 and y'' = a @ ch CHR ''='' # b \<and> a \<noteq> [] \<and> b \<noteq> []
           \<and> list_all eq_class a \<and> list_all eq_class b)
   \<and> equationRule (js ''x=1 and y=2'') = js ''$$x=1 and y$$'' @ equationRule (js ''=2'')"
proof -
  note inst = C2_equation_rule [of "js ''x=1 and y=2''"]
  from inst have "\<forall>pre st r. exec equationPattern (js ''x=1 and y=2'') = Some (pre, st, r) \<longrightarrow>
        (\<exists>a b. matched st = a @ ch CHR ''='' # b \<and> a \<noteq> [] \<and> b \<noteq> []
           \<and> (\<forall>c\<in>set a. eq_class c) \<and> (\<forall>c\<in>set b. eq_class c)
           \<and> (pre = [] \<or> \<not> eq_class (last pre)) \<and> (r = [] \<or> \<not> eq_class (hd r)))"
    by (rule conjunct2 [THEN conjunct1])
  with equation_exec_example have "\<exists>a b. js ''x=1 and y'' = a @ ch CHR ''='' # b \<and> a \<noteq> [] \<and> b \<noteq> []
           \<and> list_all eq_class a \<and> list_all eq_class b"
    by (fastforce simp: list_all_iff)
  moreover have "test [Cls digit] (js ''x=1 and y'')" "trim (js ''x=1 and y'') = js ''x=1 and y''"
    by code_simp+
  with inst equation_exec_example
  have "equationRule (js ''x=1 and y=2'') = js ''$$x=1 and y$$'' @ equationRule (js ''=2'')"
    by (simp add: js_def)
  ultimately show ?thesis using equation_exec_example by simp
qed

section \<open>The exponent rule\<close>

lemma alnum_not_caret: "alnum c \<Longrightarrow> c \<noteq> ch CHR ''^''"
  by (auto simp: alnum_def ch_def)

lemma rmatch_exponent:
  "rmatch re_exponent init s =
     (if takeWhile alnum s = [] then None
      else case dropWhile alnum s of
             [] \<Rightarrow> None
           | e # u \<Rightarrow>
               if e \<noteq> ch CHR ''^'' \<or> takeWhile digit u = [] then None
               else Some (\<lparr>matched = takeWhile alnum s @ ch CHR ''^'' # takeWhile digit u,
                           opens = [],
                           caps = [takeWhile alnum s, takeWhile digit u]\<rparr>,
                          dropWhile digit u))"
proof -
  let ?st1 = "init\<lparr>matched := matched init @ takeWhile alnum s, caps := caps init @ [takeWhile alnum s]\<rparr>"
  have 1: "\<And>st' x xs. alnum x \<Longrightarrow>
      rmatch (Lit (ch CHR ''^'') # [Open, Plus digit, Close]) st' (x # xs) = None"
    by (simp add: alnum_not_caret)
  have A: "rmatch re_exponent init s = (if takeWhile alnum s = [] then None
      else rmatch (Lit (ch CHR ''^'') # [Open, Plus digit, Close]) ?st1 (dropWhile alnum s))"
    unfolding re_exponent_def by (rule Group_max [OF 1])
  have B: "rmatch (Lit (ch CHR ''^'') # [Open, Plus digit, Close]) ?st1 [] = None" by simp
  have C: "\<And>e u. rmatch (Lit (ch CHR ''^'') # [Open, Plus digit, Close]) ?st1 (e # u)
      = (if e \<noteq> ch CHR ''^'' \<or> takeWhile digit u = [] then None
         else Some (\<lparr>matched = takeWhile alnum s @ ch CHR ''^'' # takeWhile digit u,
                     opens = [],
                     caps = [takeWhile alnum s, takeWhile digit u]\<rparr>,
                    dropWhile digit u))"
  proof -
    fix e u
    have "rmatch (Lit (ch CHR ''^'') # [Open, Plus digit, Close]) ?st1 (e # u)
        = (if e = ch CHR ''^'' then rmatch [Open, Plus digit, Close] (eat e ?st1) u else None)"
      by simp
    then show "rmatch (Lit (ch CHR ''^'') # [Open, Plus digit, Close]) ?st1 (e # u)
      = (if e \<noteq> ch CHR ''^'' \<or> takeWhile digit u = [] then None
         else Some (\<lparr>matched = takeWhile alnum s @ ch CHR ''^'' # takeWhile digit u,
                     opens = [],
                     caps = [takeWhile alnum s, takeWhile digit u]\<rparr>,
                    dropWhile digit u))"
      by (simp only: Group_end) (simp add: init_def eat_def)
  qed
  show ?thesis
    by (cases "dropWhile alnum s") (simp_all only: A B C list.case)
qed

lemma exponent_template:
  "GetSubstitution m b a [g1, g2] (js ''$1^{$2}'') = g1 @ js ''^{'' @ g2 @ js ''}''"
  by (simp add: js_def DOLLAR_def digit_def digit_value_def)

lemma braced_shape:
  assumes "rmatch re_braced init s = Some (st, r)"
  shows "\<exists>a g. matched st = a @ js ''^{'' @ g @ js ''}'' \<and> caps st = [a, g] \<and> a \<noteq> []"
proof -
  from assms have "rmatch (Open # Plus alnum # Close # Lit (ch CHR ''^'') # Lit (ch CHR ''{'')
      # Open # Plus (\<lambda>c. c \<noteq> ch CHR ''}'') # Close # [Lit (ch CHR ''}'')]) init s = Some (st, r)"
    by (simp only: re_braced_def)
  from Group_split [OF this] obtain a p1 where a: "a \<noteq> []"
    and 1: "rmatch (Lit (ch CHR ''^'') # Lit (ch CHR ''{'')
      # Open # Plus (\<lambda>c. c \<noteq> ch CHR ''}'') # Close # [Lit (ch CHR ''}'')])
        (init\<lparr>matched := matched init @ a, caps := caps init @ [a]\<rparr>) p1 = Some (st, r)"
    by blast
  from Lit_split [OF 1] obtain p2 where
    2: "rmatch (Lit (ch CHR ''{'') # Open # Plus (\<lambda>c. c \<noteq> ch CHR ''}'') # Close # [Lit (ch CHR ''}'')])
        (init\<lparr>matched := a @ [ch CHR ''^''], caps := [a]\<rparr>) p2 = Some (st, r)"
    by (auto simp: init_def)
  from Lit_split [OF 2] obtain p3 where
    3: "rmatch (Open # Plus (\<lambda>c. c \<noteq> ch CHR ''}'') # Close # [Lit (ch CHR ''}'')])
        (init\<lparr>matched := a @ [ch CHR ''^'', ch CHR ''{''], caps := [a]\<rparr>) p3 = Some (st, r)"
    by (auto simp: init_def)
  from Group_split [OF 3] obtain g p4 where
    4: "rmatch [Lit (ch CHR ''}'')]
        (init\<lparr>matched := a @ [ch CHR ''^'', ch CHR ''{''] @ g, caps := [a, g]\<rparr>) p4 = Some (st, r)"
    by (auto simp: init_def)
  from Lit_split [OF 4] have "st = init\<lparr>matched := a @ [ch CHR ''^'', ch CHR ''{''] @ g @ [ch CHR ''}''], caps := [a, g]\<rparr>"
    by (auto simp: init_def)
  then have "matched st = a @ js ''^{'' @ g @ js ''}'' \<and> caps st = [a, g]"
    by (simp add: js_def ch_def)
  with a show ?thesis by blast
qed

lemma replace_loop_identity:
  assumes "\<And>s st r lhs rhs. rmatch re init s = Some (st, r) \<Longrightarrow>
      matched st \<noteq> [] \<and> substitute rep st lhs rhs = matched st"
  shows "replace_loop re rep lhs s = s"
proof (induction "length s" arbitrary: s lhs rule: less_induct)
  case less
  show ?case
  proof (cases "exec re s")
    case None
    then show ?thesis by (simp add: replace_loop_None)
  next
    case (Some a)
    then obtain pre st r where ex: "exec re s = Some (pre, st, r)" by (cases a) auto
    note es = exec_Some [OF ex]
    from es have s: "s = pre @ matched st @ r" by (rule conjunct1)
    from es have m: "rmatch re init (matched st @ r) = Some (st, r)"
      by (rule conjunct2 [THEN conjunct1])
    from assms [OF m] have ne: "matched st \<noteq> []"
      and sub: "substitute rep st (lhs @ pre) r = matched st" by simp_all
    from s ne have "length r < length s" by (cases "matched st") simp_all
    from less [OF this] have IH: "replace_loop re rep (lhs @ pre @ matched st) r = r" .
    have "replace_loop re rep lhs s
        = pre @ substitute rep st (lhs @ pre) r @ replace_loop re rep (lhs @ pre @ matched st) r"
      by (rule replace_loop_Some [OF ex ne])
    also have "\<dots> = pre @ matched st @ r" by (simp only: sub IH)
    finally show ?thesis using s by simp
  qed
qed

lemma braced_identity: "replace re_braced (Template (js ''$1^{$2}'')) s = s"
  unfolding replace_def
proof (rule replace_loop_identity)
  fix s st r lhs rhs
  assume "rmatch re_braced init s = Some (st, r)"
  from braced_shape [OF this] obtain a g where
    "matched st = a @ js ''^{'' @ g @ js ''}''" "caps st = [a, g]" "a \<noteq> []" by blast
  then show "matched st \<noteq> [] \<and> substitute (Template (js ''$1^{$2}'')) st lhs rhs = matched st"
    by (simp add: substitute_def exponent_template)
qed

lemma exponentRule_eq: "exponentRule s = replace re_exponent (Template (js ''$1^{$2}'')) s"
  by (simp add: exponentRule_def braced_identity)

lemma digit_not_caret: "digit c \<Longrightarrow> c \<noteq> ch CHR ''^''"
  by (auto simp: digit_def ch_def)

lemma caret_digit_hd: "caret_digit t \<Longrightarrow> t \<noteq> [] \<and> hd t = ch CHR ''^''"
  by (cases t rule: caret_digit.cases) simp_all

lemma has_exponent_suffix: "has_exponent v \<Longrightarrow> has_exponent (u @ v)"
  by (induction u) simp_all

lemma has_exponent_digits:
  "\<forall>c\<in>set d. digit c \<Longrightarrow> has_exponent (d @ ch CHR ''}'' # t) = has_exponent t"
proof (induction d)
  case Nil
  show ?case by (simp add: alnum_def ch_def)
next
  case (Cons x d)
  have "\<not> caret_digit (d @ ch CHR ''}'' # t)"
  proof
    assume "caret_digit (d @ ch CHR ''}'' # t)"
    from caret_digit_hd [OF this] Cons.prems show False
      by (cases d) (auto simp: ch_def dest: digit_not_caret)
  qed
  with Cons show ?case by simp
qed

lemma has_exponent_alnums:
  "\<forall>c\<in>set a. alnum c \<Longrightarrow>
   has_exponent (a @ ch CHR ''^'' # ch CHR ''{'' # u) = has_exponent u"
proof (induction a)
  case Nil
  show ?case by (simp add: alnum_def digit_def ch_def)
next
  case (Cons x a)
  have "\<not> caret_digit (a @ ch CHR ''^'' # ch CHR ''{'' # u)"
  proof
    assume c: "caret_digit (a @ ch CHR ''^'' # ch CHR ''{'' # u)"
    show False
    proof (cases a)
      case Nil
      with c show False by (simp add: digit_def ch_def)
    next
      case (Cons y ys)
      with caret_digit_hd [OF c] Cons.prems show False by (auto dest: alnum_not_caret)
    qed
  qed
  with Cons show ?case by simp
qed

lemma has_exponent_replacement:
  assumes "\<forall>c\<in>set a. alnum c" "\<forall>c\<in>set d. digit c"
  shows "has_exponent (a @ js ''^{'' @ d @ js ''}'' @ t) = has_exponent t"
proof -
  have "js ''^{'' @ d @ js ''}'' @ t = ch CHR ''^'' # ch CHR ''{'' # (d @ ch CHR ''}'' # t)"
    by (simp add: js_def ch_def)
  then show ?thesis
    by (simp only: has_exponent_alnums [OF assms(1)] has_exponent_digits [OF assms(2)])
qed

lemma exponent_hit_iff:
  "rmatch re_exponent init (x # xs) \<noteq> None \<longleftrightarrow> alnum x \<and> caret_digit (dropWhile alnum xs)"
proof (cases "alnum x")
  case False
  then show ?thesis by (simp add: rmatch_exponent)
next
  case True
  define D where "D = dropWhile alnum xs"
  from True have m: "rmatch re_exponent init (x # xs) =
      (case D of
         [] \<Rightarrow> None
       | e # u \<Rightarrow>
           if e \<noteq> ch CHR ''^'' \<or> takeWhile digit u = [] then None
           else Some (\<lparr>matched = takeWhile alnum (x # xs) @ ch CHR ''^'' # takeWhile digit u,
                       opens = [],
                       caps = [takeWhile alnum (x # xs), takeWhile digit u]\<rparr>,
                      dropWhile digit u))"
    by (simp add: rmatch_exponent D_def)
  have "rmatch re_exponent init (x # xs) \<noteq> None \<longleftrightarrow> caret_digit D"
    unfolding m by (cases D rule: caret_digit.cases) auto
  with True show ?thesis by (simp add: D_def)
qed

lemma exponent_hit_has: "rmatch re_exponent init u \<noteq> None \<Longrightarrow> has_exponent u"
proof (induction u)
  case Nil
  then show ?case by (simp add: rmatch_exponent)
next
  case (Cons x xs)
  then have x: "alnum x" and cd: "caret_digit (dropWhile alnum xs)"
    using exponent_hit_iff [of x xs] by blast+
  show ?case
  proof (cases xs)
    case Nil
    with cd show ?thesis by simp
  next
    case (Cons y ys)
    show ?thesis
    proof (cases "alnum y")
      case True
      with cd Cons have "rmatch re_exponent init xs \<noteq> None"
        using exponent_hit_iff [of y ys] by simp
      with Cons.IH show ?thesis by simp
    next
      case False
      with cd Cons x show ?thesis by simp
    qed
  qed
qed

lemma no_exponent_exec:
  assumes "\<not> has_exponent t"
  shows "exec re_exponent t = None"
proof -
  have "\<forall>i\<le>length t. rmatch re_exponent init (drop i t) = None"
  proof (intro allI impI)
    fix i
    show "rmatch re_exponent init (drop i t) = None"
    proof (rule ccontr)
      assume "rmatch re_exponent init (drop i t) \<noteq> None"
      then have "has_exponent (drop i t)" by (rule exponent_hit_has)
      then have "has_exponent (take i t @ drop i t)" by (rule has_exponent_suffix)
      with assms show False by simp
    qed
  qed
  then show ?thesis by (simp add: exec_None_iff)
qed

lemma exponent_hit_step:
  assumes "rmatch re_exponent init s = Some (st, r)"
  shows "\<exists>a d. a \<noteq> [] \<and> (\<forall>c\<in>set a. alnum c) \<and> (\<forall>c\<in>set d. digit c)
      \<and> a = takeWhile alnum s \<and> length r < length s
      \<and> (\<forall>lhs. replace_loop re_exponent (Template (js ''$1^{$2}'')) lhs s
            = a @ js ''^{'' @ d @ js ''}''
                @ replace_loop re_exponent (Template (js ''$1^{$2}'')) (lhs @ matched st) r)"
proof -
  define D where "D = dropWhile alnum s"
  from assms have a: "takeWhile alnum s \<noteq> []"
    unfolding rmatch_exponent by (simp split: if_splits)
  with assms have m: "(case D of
         [] \<Rightarrow> None
       | e # u \<Rightarrow>
           if e \<noteq> ch CHR ''^'' \<or> takeWhile digit u = [] then None
           else Some (\<lparr>matched = takeWhile alnum s @ ch CHR ''^'' # takeWhile digit u,
                       opens = [],
                       caps = [takeWhile alnum s, takeWhile digit u]\<rparr>,
                      dropWhile digit u)) = Some (st, r)"
    unfolding rmatch_exponent D_def by simp
  then obtain u where D: "D = ch CHR ''^'' # u"
    and st: "st = \<lparr>matched = takeWhile alnum s @ ch CHR ''^'' # takeWhile digit u, opens = [],
                    caps = [takeWhile alnum s, takeWhile digit u]\<rparr>"
    and r: "r = dropWhile digit u"
    by (cases D) (auto split: if_splits)
  have ne: "matched st \<noteq> []" by (simp add: st)
  have "s = matched st @ r" using assms by (rule rmatch_init)
  with ne have len: "length r < length s" by (cases "matched st") simp_all
  have "\<forall>lhs. replace_loop re_exponent (Template (js ''$1^{$2}'')) lhs s
      = takeWhile alnum s @ js ''^{'' @ takeWhile digit u @ js ''}''
          @ replace_loop re_exponent (Template (js ''$1^{$2}'')) (lhs @ matched st) r"
  proof
    fix lhs
    show "replace_loop re_exponent (Template (js ''$1^{$2}'')) lhs s
      = takeWhile alnum s @ js ''^{'' @ takeWhile digit u @ js ''}''
          @ replace_loop re_exponent (Template (js ''$1^{$2}'')) (lhs @ matched st) r"
      by (simp add: replace_loop_hit [OF assms ne] substitute_def)
         (simp add: st exponent_template)
  qed
  moreover have "\<forall>c\<in>set (takeWhile alnum s). alnum c" "\<forall>c\<in>set (takeWhile digit u). digit c"
    by (auto dest: set_takeWhileD)
  ultimately show ?thesis using a len by blast
qed

lemma exponent_first:
  "replace_loop re_exponent (Template (js ''$1^{$2}'')) lhs (x # xs) \<noteq> []
   \<and> hd (replace_loop re_exponent (Template (js ''$1^{$2}'')) lhs (x # xs)) = x"
proof (cases "rmatch re_exponent init (x # xs)")
  case None
  then show ?thesis by (simp add: replace_loop_skip)
next
  case (Some a)
  then obtain st r where m: "rmatch re_exponent init (x # xs) = Some (st, r)" by (cases a) auto
  from exponent_hit_step [OF m] obtain a d where "a \<noteq> []" "a = takeWhile alnum (x # xs)"
    and "replace_loop re_exponent (Template (js ''$1^{$2}'')) lhs (x # xs)
            = a @ js ''^{'' @ d @ js ''}''
                @ replace_loop re_exponent (Template (js ''$1^{$2}'')) (lhs @ matched st) r"
    by blast
  then show ?thesis by (cases "alnum x") auto
qed

lemma exponent_Nil: "replace_loop re_exponent (Template (js ''$1^{$2}'')) lhs [] = []"
  by (simp add: replace_loop_Nil rmatch_exponent)

lemma exponent_caret_digit:
  "caret_digit (replace_loop re_exponent (Template (js ''$1^{$2}'')) lhs s) = caret_digit s"
proof (cases s)
  case Nil
  then show ?thesis by (simp add: exponent_Nil)
next
  case (Cons x xs)
  show ?thesis
  proof (cases "x = ch CHR ''^''")
    case False
    from exponent_first [of lhs x xs] obtain t where
      "replace_loop re_exponent (Template (js ''$1^{$2}'')) lhs (x # xs) = x # t"
      by (cases "replace_loop re_exponent (Template (js ''$1^{$2}'')) lhs (x # xs)") auto
    with False Cons show ?thesis
      by (cases t; cases xs) simp_all
  next
    case True
    then have "\<not> alnum x" using alnum_not_caret by blast
    then have "rmatch re_exponent init (x # xs) = None" by (simp add: rmatch_exponent)
    then have step: "replace_loop re_exponent (Template (js ''$1^{$2}'')) lhs (x # xs)
        = x # replace_loop re_exponent (Template (js ''$1^{$2}'')) (lhs @ [x]) xs"
      by (rule replace_loop_skip)
    show ?thesis
    proof (cases xs)
      case Nil
      with step Cons show ?thesis by (simp add: exponent_Nil)
    next
      case (Cons y ys)
      from exponent_first [of "lhs @ [x]" y ys] obtain t where
        "replace_loop re_exponent (Template (js ''$1^{$2}'')) (lhs @ [x]) (y # ys) = y # t"
        by (cases "replace_loop re_exponent (Template (js ''$1^{$2}'')) (lhs @ [x]) (y # ys)") auto
      with step Cons \<open>s = x # xs\<close> show ?thesis by simp
    qed
  qed
qed

lemma exponent_output:
  "\<not> has_exponent (replace_loop re_exponent (Template (js ''$1^{$2}'')) lhs s)"
proof (induction "length s" arbitrary: s lhs rule: less_induct)
  case less
  show ?case
  proof (cases "rmatch re_exponent init s")
    case (Some a)
    then obtain st r where m: "rmatch re_exponent init s = Some (st, r)" by (cases a) auto
    from exponent_hit_step [OF m] obtain a d where ad: "\<forall>c\<in>set a. alnum c" "\<forall>c\<in>set d. digit c"
      and len: "length r < length s"
      and step: "replace_loop re_exponent (Template (js ''$1^{$2}'')) lhs s
            = a @ js ''^{'' @ d @ js ''}''
                @ replace_loop re_exponent (Template (js ''$1^{$2}'')) (lhs @ matched st) r"
      by blast
    from less [OF len, of "lhs @ matched st"] show ?thesis
      by (simp only: step has_exponent_replacement [OF ad] not_False_eq_True)
  next
    case None
    show ?thesis
    proof (cases s)
      case Nil
      then show ?thesis by (simp add: exponent_Nil)
    next
      case (Cons x xs)
      with None have step: "replace_loop re_exponent (Template (js ''$1^{$2}'')) lhs s
          = x # replace_loop re_exponent (Template (js ''$1^{$2}'')) (lhs @ [x]) xs"
        by (simp add: replace_loop_skip)
      from Cons have "length xs < length s" by simp
      from less [OF this] have IH:
        "\<not> has_exponent (replace_loop re_exponent (Template (js ''$1^{$2}'')) (lhs @ [x]) xs)" .
      have "\<not> (alnum x \<and> caret_digit xs)"
      proof
        assume h: "alnum x \<and> caret_digit xs"
        with caret_digit_hd [of xs] have "dropWhile alnum xs = xs"
          by (cases xs) (auto dest: alnum_not_caret)
        with h have "rmatch re_exponent init (x # xs) \<noteq> None"
          using exponent_hit_iff [of x xs] by simp
        with None Cons show False by simp
      qed
      with IH show ?thesis by (simp add: step exponent_caret_digit)
    qed
  qed
qed

text \<open>
  C5: the exponent rule, applied to its own output, changes nothing. The second rewrite
  replaces each of its matches by itself, and the first leaves no letter or digit followed by
  \<open>^\<close> and a digit.
\<close>

theorem C5_exponent_idempotent: "exponentRule (exponentRule s) = exponentRule s"
proof -
  have "exec re_exponent (exponentRule s) = None"
    unfolding exponentRule_eq replace_def by (rule no_exponent_exec) (rule exponent_output)
  then show ?thesis
    by (simp add: exponentRule_eq [of "exponentRule s"] replace_def replace_loop_None)
qed

section \<open>Balanced delimiters\<close>

lemma balanced_plains: "DOLLAR \<notin> set m \<Longrightarrow> balanced (m @ s) = balanced s"
  by (induction m) auto

lemma balanced_inline:
  assumes "m \<noteq> []" "DOLLAR \<notin> set m"
  shows "balanced (DOLLAR # m @ DOLLAR # s) = balanced s"
proof -
  from assms obtain d m' where m: "m = d # m'" and d: "d \<noteq> DOLLAR" and m': "DOLLAR \<notin> set m'"
    by (cases m) auto
  from m' have "dropWhile (\<lambda>x. x \<noteq> DOLLAR) (m' @ DOLLAR # s) = DOLLAR # s"
    by (auto simp: dropWhile_append3)
  with d show ?thesis by (simp add: m)
qed

lemma balanced_block:
  assumes "m \<noteq> []" "DOLLAR \<notin> set m"
  shows "balanced (DOLLAR # DOLLAR # m @ DOLLAR # DOLLAR # s) = balanced s"
proof -
  from assms(2) have "dropWhile (\<lambda>x. x \<noteq> DOLLAR) (m @ DOLLAR # DOLLAR # s) = DOLLAR # DOLLAR # s"
    by (auto simp: dropWhile_append3)
  moreover from assms(2) have "takeWhile (\<lambda>x. x \<noteq> DOLLAR) (m @ DOLLAR # DOLLAR # s) = m"
    by (auto simp: takeWhile_tail takeWhile_eq_all_conv)
  ultimately show ?thesis using assms(1) by simp
qed

lemma replace_loop_free:
  assumes "\<And>s st r lhs rhs. rmatch re init s = Some (st, r) \<Longrightarrow>
      matched st \<noteq> [] \<and> (DOLLAR \<notin> set (matched st) \<longrightarrow> DOLLAR \<notin> set (substitute rep st lhs rhs))"
    and "DOLLAR \<notin> set s"
  shows "DOLLAR \<notin> set (replace_loop re rep lhs s)"
  using assms(2)
proof (induction "length s" arbitrary: s lhs rule: less_induct)
  case less
  show ?case
  proof (cases "exec re s")
    case None
    with less.prems show ?thesis by (simp add: replace_loop_None)
  next
    case (Some a)
    then obtain pre st r where ex: "exec re s = Some (pre, st, r)" by (cases a) auto
    note es = exec_Some [OF ex]
    from es have s: "s = pre @ matched st @ r" by (rule conjunct1)
    from es have m: "rmatch re init (matched st @ r) = Some (st, r)"
      by (rule conjunct2 [THEN conjunct1])
    from s less.prems have free: "DOLLAR \<notin> set pre" "DOLLAR \<notin> set (matched st)" "DOLLAR \<notin> set r"
      by auto
    from assms(1) [OF m] free(2) have ne: "matched st \<noteq> []"
      and sub: "DOLLAR \<notin> set (substitute rep st (lhs @ pre) r)" by blast+
    from s ne have "length r < length s" by (cases "matched st") simp_all
    from less.hyps [OF this free(3)]
    have "DOLLAR \<notin> set (replace_loop re rep (lhs @ pre @ matched st) r)" .
    with free(1) sub show ?thesis by (simp add: replace_loop_Some [OF ex ne])
  qed
qed

lemma fraction_shape:
  assumes "rmatch re_fraction init s = Some (st, r)"
  shows "\<exists>n d. matched st = n @ ch CHR ''/'' # d \<and> caps st = [n, d] \<and> n \<noteq> []"
proof -
  from assms have "rmatch (Open # Plus digit # Close # Lit (ch CHR ''/'') # [Open, Plus digit, Close])
      init s = Some (st, r)" by (simp only: re_fraction_def)
  from Group_split [OF this] obtain n p1 where n: "n \<noteq> []"
    and 1: "rmatch (Lit (ch CHR ''/'') # [Open, Plus digit, Close])
        (init\<lparr>matched := matched init @ n, caps := caps init @ [n]\<rparr>) p1 = Some (st, r)"
    by blast
  from Lit_split [OF 1] obtain p2 where
    2: "rmatch (Open # Plus digit # Close # []) (init\<lparr>matched := n @ [ch CHR ''/''], caps := [n]\<rparr>) p2
        = Some (st, r)"
    by (auto simp: init_def)
  from Group_split [OF 2] obtain d p3 where
    "rmatch [] (init\<lparr>matched := n @ [ch CHR ''/''] @ d, caps := [n, d]\<rparr>) p3 = Some (st, r)"
    by (auto simp: init_def)
  then have "matched st = n @ ch CHR ''/'' # d \<and> caps st = [n, d]" by auto
  with n show ?thesis by blast
qed

lemma exponent_shape:
  assumes "rmatch re_exponent init s = Some (st, r)"
  shows "\<exists>a d. matched st = a @ ch CHR ''^'' # d \<and> caps st = [a, d] \<and> a \<noteq> []"
proof -
  from assms have "rmatch (Open # Plus alnum # Close # Lit (ch CHR ''^'') # [Open, Plus digit, Close])
      init s = Some (st, r)" by (simp only: re_exponent_def)
  from Group_split [OF this] obtain n p1 where n: "n \<noteq> []"
    and 1: "rmatch (Lit (ch CHR ''^'') # [Open, Plus digit, Close])
        (init\<lparr>matched := matched init @ n, caps := caps init @ [n]\<rparr>) p1 = Some (st, r)"
    by blast
  from Lit_split [OF 1] obtain p2 where
    2: "rmatch (Open # Plus digit # Close # []) (init\<lparr>matched := n @ [ch CHR ''^''], caps := [n]\<rparr>) p2
        = Some (st, r)"
    by (auto simp: init_def)
  from Group_split [OF 2] obtain d p3 where
    "rmatch [] (init\<lparr>matched := n @ [ch CHR ''^''] @ d, caps := [n, d]\<rparr>) p3 = Some (st, r)"
    by (auto simp: init_def)
  then have "matched st = n @ ch CHR ''^'' # d \<and> caps st = [n, d]" by auto
  with n show ?thesis by blast
qed

lemma sqrt_paren_shape:
  assumes "rmatch re_sqrt_paren init s = Some (st, r)"
  shows "\<exists>g. matched st = 0x221A # ch CHR ''('' # g @ [ch CHR '')''] \<and> caps st = [g]"
proof -
  from assms have "rmatch (Lit 0x221A # Lit (ch CHR ''('') # Open # Plus (\<lambda>c. c \<noteq> ch CHR '')'') # Close
      # [Lit (ch CHR '')'')]) init s = Some (st, r)" by (simp only: re_sqrt_paren_def)
  from Lit_split [OF this] obtain p1 where
    1: "rmatch (Lit (ch CHR ''('') # Open # Plus (\<lambda>c. c \<noteq> ch CHR '')'') # Close # [Lit (ch CHR '')'')])
        (init\<lparr>matched := [0x221A]\<rparr>) p1 = Some (st, r)"
    by (auto simp: init_def)
  from Lit_split [OF 1] obtain p2 where
    2: "rmatch (Open # Plus (\<lambda>c. c \<noteq> ch CHR '')'') # Close # [Lit (ch CHR '')'')])
        (init\<lparr>matched := [0x221A, ch CHR ''('']\<rparr>) p2 = Some (st, r)"
    by (auto simp: init_def)
  from Group_split [OF 2] obtain g p3 where
    3: "rmatch [Lit (ch CHR '')'')] (init\<lparr>matched := [0x221A, ch CHR ''(''] @ g, caps := [g]\<rparr>) p3
        = Some (st, r)"
    by (auto simp: init_def)
  from Lit_split [OF 3] have "matched st = 0x221A # ch CHR ''('' # g @ [ch CHR '')''] \<and> caps st = [g]"
    by (auto simp: init_def)
  then show ?thesis by blast
qed

lemma sqrt_digits_shape:
  assumes "rmatch re_sqrt_digits init s = Some (st, r)"
  shows "\<exists>g. matched st = 0x221A # g \<and> caps st = [g]"
proof -
  from assms have "rmatch (Lit 0x221A # Open # Plus digit # Close # []) init s = Some (st, r)"
    by (simp only: re_sqrt_digits_def)
  from Lit_split [OF this] obtain p1 where
    1: "rmatch (Open # Plus digit # Close # []) (init\<lparr>matched := [0x221A]\<rparr>) p1 = Some (st, r)"
    by (auto simp: init_def)
  from Group_split [OF 1] obtain g p2 where
    "rmatch [] (init\<lparr>matched := [0x221A] @ g, caps := [g]\<rparr>) p2 = Some (st, r)"
    by (auto simp: init_def)
  then have "matched st = 0x221A # g \<and> caps st = [g]" by auto
  then show ?thesis by blast
qed

lemma fraction_template:
  "GetSubstitution m b a [g1, g2] (BACKSLASH # js ''frac{$1}{$2}'')
     = BACKSLASH # js ''frac{'' @ g1 @ js ''}{'' @ g2 @ js ''}''"
  by (simp add: js_def DOLLAR_def BACKSLASH_def digit_def digit_value_def)

lemma sqrt_template:
  "GetSubstitution m b a [g] (BACKSLASH # js ''sqrt{$1}'') = BACKSLASH # js ''sqrt{'' @ g @ js ''}''"
  by (simp add: js_def DOLLAR_def BACKSLASH_def digit_def digit_value_def)

lemma fractionRule_free:
  assumes "DOLLAR \<notin> set s"
  shows "DOLLAR \<notin> set (fractionRule s)"
  unfolding fractionRule_def replace_def
proof (rule replace_loop_free [OF _ assms])
  fix s st r lhs rhs
  assume "rmatch re_fraction init s = Some (st, r)"
  from fraction_shape [OF this] obtain n d where
    m: "matched st = n @ ch CHR ''/'' # d" and c: "caps st = [n, d]" and "n \<noteq> []" by blast
  have "substitute (Template (BACKSLASH # js ''frac{$1}{$2}'')) st lhs rhs
      = BACKSLASH # js ''frac{'' @ n @ js ''}{'' @ d @ js ''}''"
    by (simp only: substitute_def replacement.case c fraction_template)
  with m show "matched st \<noteq> [] \<and> (DOLLAR \<notin> set (matched st) \<longrightarrow>
      DOLLAR \<notin> set (substitute (Template (BACKSLASH # js ''frac{$1}{$2}'')) st lhs rhs))"
    by (simp add: js_def DOLLAR_def BACKSLASH_def)
qed

lemma exponentRule_free:
  assumes "DOLLAR \<notin> set s"
  shows "DOLLAR \<notin> set (exponentRule s)"
  unfolding exponentRule_eq replace_def
proof (rule replace_loop_free [OF _ assms])
  fix s st r lhs rhs
  assume "rmatch re_exponent init s = Some (st, r)"
  from exponent_shape [OF this] obtain n d where
    m: "matched st = n @ ch CHR ''^'' # d" and c: "caps st = [n, d]" and "n \<noteq> []" by blast
  have "substitute (Template (js ''$1^{$2}'')) st lhs rhs = n @ js ''^{'' @ d @ js ''}''"
    by (simp only: substitute_def replacement.case c exponent_template)
  with m show "matched st \<noteq> [] \<and> (DOLLAR \<notin> set (matched st) \<longrightarrow>
      DOLLAR \<notin> set (substitute (Template (js ''$1^{$2}'')) st lhs rhs))"
    by (simp add: js_def DOLLAR_def)
qed

lemma rootRule_free:
  assumes "DOLLAR \<notin> set s"
  shows "DOLLAR \<notin> set (rootRule s)"
proof -
  have 1: "DOLLAR \<notin> set (replace re_sqrt_paren (Template (BACKSLASH # js ''sqrt{$1}'')) s)"
    unfolding replace_def
  proof (rule replace_loop_free [OF _ assms])
    fix s st r lhs rhs
    assume "rmatch re_sqrt_paren init s = Some (st, r)"
    from sqrt_paren_shape [OF this] obtain g where
      m: "matched st = 0x221A # ch CHR ''('' # g @ [ch CHR '')'']" and c: "caps st = [g]" by blast
    have "substitute (Template (BACKSLASH # js ''sqrt{$1}'')) st lhs rhs
        = BACKSLASH # js ''sqrt{'' @ g @ js ''}''"
      by (simp only: substitute_def replacement.case c sqrt_template)
    with m show "matched st \<noteq> [] \<and> (DOLLAR \<notin> set (matched st) \<longrightarrow>
        DOLLAR \<notin> set (substitute (Template (BACKSLASH # js ''sqrt{$1}'')) st lhs rhs))"
      by (simp add: js_def DOLLAR_def BACKSLASH_def)
  qed
  have "DOLLAR \<notin> set (replace_loop re_sqrt_digits (Template (BACKSLASH # js ''sqrt{$1}'')) []
      (replace re_sqrt_paren (Template (BACKSLASH # js ''sqrt{$1}'')) s))"
  proof (rule replace_loop_free [OF _ 1])
    fix s st r lhs rhs
    assume "rmatch re_sqrt_digits init s = Some (st, r)"
    from sqrt_digits_shape [OF this] obtain g where
      m: "matched st = 0x221A # g" and c: "caps st = [g]" by blast
    have "substitute (Template (BACKSLASH # js ''sqrt{$1}'')) st lhs rhs
        = BACKSLASH # js ''sqrt{'' @ g @ js ''}''"
      by (simp only: substitute_def replacement.case c sqrt_template)
    with m show "matched st \<noteq> [] \<and> (DOLLAR \<notin> set (matched st) \<longrightarrow>
        DOLLAR \<notin> set (substitute (Template (BACKSLASH # js ''sqrt{$1}'')) st lhs rhs))"
      by (simp add: js_def DOLLAR_def BACKSLASH_def)
  qed
  then show ?thesis by (simp add: rootRule_def replace_def [of re_sqrt_digits])
qed

lemma wrapWith_ascii:
  assumes "symbol_table tbl" "c < 0x80"
  shows "wrapWith tbl c = [c]"
proof -
  have "c \<notin> fst ` set tbl" using assms by (auto simp: symbol_table_def)
  then have "map_of tbl c = None" by (simp add: map_of_eq_None_iff)
  then show ?thesis by (simp add: wrapWith_def)
qed

lemma wrapWith_cases:
  assumes "symbol_table tbl"
  shows "wrapWith tbl c = [c]
       \<or> (\<exists>l. wrapWith tbl c = DOLLAR # l @ [DOLLAR] \<and> l \<noteq> [] \<and> (\<forall>x\<in>set l. name_char x))"
proof (cases "map_of tbl c")
  case None
  then show ?thesis by (simp add: wrapWith_def)
next
  case (Some l)
  then have "(c, l) \<in> set tbl" by (rule map_of_SomeD)
  with assms have "l \<noteq> []" "\<forall>x\<in>set l. name_char x" by (auto simp: symbol_table_def)
  with Some show ?thesis by (simp add: wrapWith_def js_def DOLLAR_def)
qed

lemma plain_annotated: "DOLLAR \<notin> set s \<Longrightarrow> annotated s"
  by (induction s) (auto intro: annotated.intros)

lemma annotated_wrapWith:
  assumes tbl: "symbol_table tbl"
  shows "annotated t \<Longrightarrow> annotated (concat (map (wrapWith tbl) t))"
proof (induction t rule: annotated.induct)
  case Nil
  show ?case by (simp add: annotated.Nil)
next
  case (Plain c t)
  from wrapWith_cases [OF tbl, of c] show ?case
  proof
    assume "wrapWith tbl c = [c]"
    with Plain show ?thesis by (simp add: annotated.Plain)
  next
    assume "\<exists>l. wrapWith tbl c = DOLLAR # l @ [DOLLAR] \<and> l \<noteq> [] \<and> (\<forall>x\<in>set l. name_char x)"
    then obtain l where "wrapWith tbl c = DOLLAR # l @ [DOLLAR]" "l \<noteq> []" "\<forall>x\<in>set l. name_char x"
      by blast
    with Plain.IH show ?thesis by (simp add: annotated.Wrap)
  qed
next
  case (Wrap name t)
  have d: "wrapWith tbl DOLLAR = [DOLLAR]"
    by (rule wrapWith_ascii [OF tbl]) (simp add: DOLLAR_def)
  have "concat (map (wrapWith tbl) name) = name"
  proof (rule concat_map_keep)
    fix x assume "x \<in> set name"
    with Wrap.hyps have "x < 0x80" by (auto dest: name_char_ascii)
    then show "wrapWith tbl x = [x]" by (rule wrapWith_ascii [OF tbl])
  qed
  with d Wrap show ?case by (simp add: annotated.Wrap)
qed

lemma annotated_suffix: "annotated (m @ r) \<Longrightarrow> DOLLAR \<notin> set m \<Longrightarrow> annotated r"
proof (induction m)
  case Nil
  then show ?case by simp
next
  case (Cons x m)
  from Cons.prems(1) have "annotated (x # (m @ r))" by simp
  then show ?case
  proof (cases rule: annotated.cases)
    case Plain
    with Cons show ?thesis by simp
  next
    case (Wrap name t)
    with Cons.prems(2) show ?thesis by simp
  qed
qed

lemma no_match_region:
  assumes "ch CHR ''='' \<notin> set w"
  shows "rmatch equationPattern init (w @ DOLLAR # u) = None"
proof -
  define D where "D = dropWhile eq_class (w @ DOLLAR # u)"
  have "\<not> eq_class DOLLAR" using eq_class_not_DOLLAR by blast
  then have D: "D = dropWhile eq_class w @ DOLLAR # u"
    unfolding D_def by (rule dropWhile_append3)
  have "D \<noteq> [] \<and> hd D \<noteq> ch CHR ''=''"
  proof (cases "dropWhile eq_class w")
    case Nil
    with D show ?thesis by (simp add: DOLLAR_def ch_def)
  next
    case (Cons e w')
    then have "e \<in> set w" by (metis list.set_intros(1) set_dropWhileD)
    with assms Cons D show ?thesis by auto
  qed
  then obtain e u' where "D = e # u'" "e \<noteq> ch CHR ''=''" by (cases D) auto
  then show ?thesis
    unfolding rmatch_equation D_def [symmetric] by simp
qed

lemma skip_region:
  assumes "ch CHR ''='' \<notin> set w"
  shows "replace_loop equationPattern rep lhs (w @ DOLLAR # u)
       = w @ DOLLAR # replace_loop equationPattern rep (lhs @ w @ [DOLLAR]) u"
  using assms
proof (induction w arbitrary: lhs)
  case Nil
  have "rmatch equationPattern init (DOLLAR # u) = None"
    using no_match_region [of "[]" u] by simp
  from replace_loop_skip [OF this] show ?case by simp
next
  case (Cons x w)
  have "rmatch equationPattern init (x # (w @ DOLLAR # u)) = None"
    using no_match_region [of "x # w" u] Cons.prems by simp
  from replace_loop_skip [OF this] Cons.IH [of "lhs @ [x]"] Cons.prems show ?case by simp
qed

lemma set_trim: "set (trim m) \<subseteq> set m"
  unfolding trim_def by (auto dest!: set_dropWhileD)

lemma trim_nonempty:
  assumes "x \<in> set m" "\<not> white x"
  shows "trim m \<noteq> []"
proof -
  let ?u = "dropWhile white m"
  from assms have u: "?u \<noteq> []" by (auto simp: dropWhile_eq_Nil_conv)
  then have "\<not> white (hd ?u)" by (rule hd_dropWhile)
  moreover from u have "hd ?u \<in> set (rev ?u)" by simp
  ultimately have "dropWhile white (rev ?u) \<noteq> []" by (auto simp: dropWhile_eq_Nil_conv)
  then show ?thesis by (simp add: trim_def)
qed

lemma equation_balanced:
  "annotated t \<Longrightarrow> balanced (replace_loop equationPattern (Callback equationCallback) lhs t)"
proof (induction "length t" arbitrary: t lhs rule: less_induct)
  case less
  from less.prems show ?case
  proof (cases rule: annotated.cases)
    case Nil
    have "rmatch equationPattern init [] = None" by (simp add: rmatch_equation)
    with Nil show ?thesis by (simp add: replace_loop_Nil)
  next
    case (Plain c t')
    show ?thesis
    proof (cases "rmatch equationPattern init t")
      case None
      with Plain have "replace_loop equationPattern (Callback equationCallback) lhs t
          = c # replace_loop equationPattern (Callback equationCallback) (lhs @ [c]) t'"
        by (simp add: replace_loop_skip)
      moreover from Plain have "length t' < length t" by simp
      from less.hyps [OF this Plain(3)]
      have "balanced (replace_loop equationPattern (Callback equationCallback) (lhs @ [c]) t')" .
      ultimately show ?thesis using Plain(2) by simp
    next
      case (Some a)
      then obtain st r where m: "rmatch equationPattern init t = Some (st, r)" by (cases a) auto
      note facts = equation_match_facts [OF m]
      from rmatch_init [OF m] have t: "t = matched st @ r" .
      with facts(1) have len: "length r < length t" by (cases "matched st") simp_all
      from less.prems t have "annotated (matched st @ r)" by simp
      then have "annotated r" using facts(2) by (rule annotated_suffix)
      from less.hyps [OF len this]
      have IH: "balanced (replace_loop equationPattern (Callback equationCallback) (lhs @ matched st) r)" .
      from equation_shape [OF m] obtain a b where ab: "matched st = a @ ch CHR ''='' # b" by blast
      have "\<not> white (ch CHR ''='')" by (simp add: white_def line_terminator_def ch_def)
      with ab have ne: "trim (matched st) \<noteq> []" by (intro trim_nonempty [of "ch CHR ''=''"]) simp_all
      from facts(2) set_trim [of "matched st"] have free: "DOLLAR \<notin> set (trim (matched st))" by blast
      have "replace_loop equationPattern (Callback equationCallback) lhs t
          = equationCallback (matched st)
              @ replace_loop equationPattern (Callback equationCallback) (lhs @ matched st) r"
        using replace_loop_hit [OF m facts(1)] by (simp add: substitute_def)
      then show ?thesis
        using IH facts(2) balanced_block [OF ne free] balanced_plains [of "matched st"]
        by (simp add: equationCallback_match(2) [OF m] js_def DOLLAR_def [symmetric])
    qed
  next
    case (Wrap name t')
    from Wrap(3) have eq: "ch CHR ''='' \<notin> set name" and free: "DOLLAR \<notin> set name"
      by (auto dest: name_char_ascii)
    have "rmatch equationPattern init (DOLLAR # name @ DOLLAR # t') = None"
      using no_match_region [of "[]" "name @ DOLLAR # t'"] by simp
    from replace_loop_skip [OF this]
    have "replace_loop equationPattern (Callback equationCallback) lhs t
        = DOLLAR # name @ DOLLAR
            # replace_loop equationPattern (Callback equationCallback) ((lhs @ [DOLLAR]) @ name @ [DOLLAR]) t'"
      by (simp add: Wrap(1) skip_region [OF eq])
    moreover from Wrap(1) have "length t' < length t" by simp
    from less.hyps [OF this Wrap(4)]
    have "balanced (replace_loop equationPattern (Callback equationCallback)
        ((lhs @ [DOLLAR]) @ name @ [DOLLAR]) t')" .
    ultimately show ?thesis using balanced_inline [OF Wrap(2) free] by simp
  qed
qed

lemma dollar_result: "detectMathPatterns (js ''$5'') = js ''$5''"
  by code_simp

text \<open>
  C7, as the spec states it: on every input string the output has balanced delimiters. A
  \<open>$\<close> of the input is copied to the output: \<open>$5\<close> is returned as it is, one \<open>$\<close>
  that pairs with nothing.
\<close>

theorem C7_dollar_input_counterexample: "\<not> balanced (detectMathPatterns (js ''$5''))"
  unfolding dollar_result by code_simp

text \<open>
  C7, amended: for every input string that holds no \<open>$\<close>, the output of the annotator is a
  sequence of characters other than \<open>$\<close>, of inline regions \<open>$...$\<close> and of block regions
  \<open>$$...$$\<close>, the text inside each region being non-empty and without \<open>$\<close>: the
  delimiters pair up and no region lies inside another.
\<close>

theorem C7_balanced:
  assumes "DOLLAR \<notin> set s"
  shows "balanced (detectMathPatterns s)"
proof -
  let ?t = "rootRule (exponentRule (fractionRule s))"
  from assms have "DOLLAR \<notin> set ?t"
    by (intro rootRule_free exponentRule_free fractionRule_free)
  then have "annotated ?t" by (rule plain_annotated)
  then have "annotated (greekRule ?t)"
    unfolding greekRule_wrap by (rule annotated_wrapWith [OF greek_table])
  then have "annotated (operatorRule (greekRule ?t))"
    unfolding operatorRule_wrap by (rule annotated_wrapWith [OF operator_table])
  then have "balanced (equationRule (operatorRule (greekRule ?t)))"
    unfolding equationRule_def replace_def by (rule equation_balanced)
  then show ?thesis by (simp add: detectMathPatterns_def)
qed

theorem C7_balanced_witness:
  "DOLLAR \<notin> set (js ''x=1'') \<and> balanced (detectMathPatterns (js ''x=1''))"
  using C7_balanced [of "js ''x=1''"] by (simp add: js_def DOLLAR_def)

section \<open>The documented example\<close>

lemma example_stages:
  "exponentRule (js ''E=mc^2 and '' @ [0x3C0] @ js '' is useful'')
     = js ''E=mc^{2} and '' @ [0x3C0] @ js '' is useful''
   \<and> greekRule (js ''E=mc^{2} and '' @ [0x3C0] @ js '' is useful'')
     = js ''E=mc^{2} and $'' @ BACKSLASH # js ''pi$ is useful''
   \<and> map_option (\<lambda>(pre, st, r). (pre, matched st, r))
       (exec equationPattern (js ''E=mc^{2} and $'' @ BACKSLASH # js ''pi$ is useful''))
     = Some ([], js ''E=mc^'', js ''{2} and $'' @ BACKSLASH # js ''pi$ is useful'')
   \<and> \<not> test [Cls digit] (js ''E=mc^'')"
  by code_simp

lemma example_result:
  "detectMathPatterns (js ''E=mc^2 and '' @ [0x3C0] @ js '' is useful'')
     = js ''E=mc^{2} and $'' @ BACKSLASH # js ''pi$ is useful''"
  by code_simp

text \<open>
  C1, as the spec states it: the line \<open>E=mc^2 and \<pi> is useful\<close> is annotated to
  \<open>$$E=mc^{2} and $$$\pi$ is useful\<close>. The code does not produce that string.
\<close>

theorem C1_example_counterexample:
  "detectMathPatterns (js ''E=mc^2 and '' @ [0x3C0] @ js '' is useful'')
     \<noteq> js ''$$E=mc^{2} and $$$'' @ BACKSLASH # js ''pi$ is useful''"
  unfolding example_result by (simp add: js_def BACKSLASH_def)

text \<open>
  C1, amended: the exponent rule gives \<open>E=mc^{2} and \<pi> is useful\<close>, the Greek rule
  gives \<open>E=mc^{2} and $\pi$ is useful\<close>, and the equation rule leaves that text as it
  is: its pattern has no brace in its character class, so its only match is \<open>E=mc^\<close>,
  which holds no digit and is returned unwrapped. The annotator returns
  \<open>E=mc^{2} and $\pi$ is useful\<close>.
\<close>

theorem C1_example:
  "exponentRule (js ''E=mc^2 and '' @ [0x3C0] @ js '' is useful'')
     = js ''E=mc^{2} and '' @ [0x3C0] @ js '' is useful''
   \<and> greekRule (js ''E=mc^{2} and '' @ [0x3C0] @ js '' is useful'')
     = js ''E=mc^{2} and $'' @ BACKSLASH # js ''pi$ is useful''
   \<and> map_option (\<lambda>(pre, st, r). (pre, matched st, r))
       (exec equationPattern (js ''E=mc^{2} and $'' @ BACKSLASH # js ''pi$ is useful''))
     = Some ([], js ''E=mc^'', js ''{2} and $'' @ BACKSLASH # js ''pi$ is useful'')
   \<and> \<not> test [Cls digit] (js ''E=mc^'')
   \<and> detectMathPatterns (js ''E=mc^2 and '' @ [0x3C0] @ js '' is useful'')
     = js ''E=mc^{2} and $'' @ BACKSLASH # js ''pi$ is useful''"
  using example_stages example_result by simp

end
